theory Spec2Isabelle
  imports Complex_Main
begin

section \<open>Experience accumulation of the actor-critic trainer (algos/a3c\_atari.py)\<close>

text \<open>
  The model covers \<^verbatim>\<open>Player.__init__\<close>, \<^verbatim>\<open>Player.play\<close>,
  \<^verbatim>\<open>Player._memory_to_samples\<close> and \<^verbatim>\<open>generate_batches\<close>.

  Numbers. Rewards, value estimates, returns and the discount factor are Python floats.
  The model keeps them in a type variable \<open>'r\<close> that only has to provide \<open>0\<close>,
  \<open>+\<close>, \<open>*\<close> and \<open>-\<close>; no law of arithmetic is assumed unless a theorem says so,
  so the definitions read the same for any number representation.
  Counters (\<open>step_index\<close>, \<open>max_steps\<close>, \<open>reward_steps\<close>) are Python integers:
  \<open>int\<close>.

  Collaborators. The policy network, the random source of \<^verbatim>\<open>np.random.choice\<close>
  and the environment are external. They are parameters of the model: the environment
  and the random source are explicit states (\<open>'e\<close>, \<open>'g\<close>) passed through their
  operations, the network is a function from an observation to the pair of the action
  probabilities (\<open>'p\<close>) and the value estimate.
\<close>

subsection \<open>Data\<close>

text \<open>A memory entry is the tuple \<^verbatim>\<open>(state, action, reward, value)\<close>; 
  a training sample is the tuple \<^verbatim>\<open>(state, action, R, advantage)\<close>.\<close>

type_synonym ('obs, 'act, 'r) transition = "'obs \<times> 'act \<times> 'r \<times> 'r"
type_synonym ('obs, 'act, 'r) sample = "'obs \<times> 'act \<times> 'r \<times> 'r"

datatype error = IndexError | ValueError

record ('e, 'g, 'obs, 'act, 'p, 'r) collab =
  predict_on_batch :: "'obs \<Rightarrow> 'p \<times> 'r"
  random_choice :: "'g \<Rightarrow> 'p \<Rightarrow> 'act \<times> 'g"
  env_reset :: "'e \<Rightarrow> 'obs \<times> 'e"
  env_step :: "'e \<Rightarrow> 'act \<Rightarrow> ('obs \<times> 'r \<times> bool) \<times> 'e"

record ('e, 'obs, 'act, 'r) Player =
  env :: 'e
  reward_steps :: int
  gamma :: 'r
  state :: 'obs
  memory :: "('obs, 'act, 'r) transition list"
  episode_reward :: 'r
  step_index :: int
  max_steps :: int
  player_index :: int

text \<open>\<^verbatim>\<open>Player.__init__\<close>: the first observation is drawn from \<^verbatim>\<open>env.reset()\<close>.\<close>

definition Player_init ::
  "('e, 'g, 'obs, 'act, 'p, 'r::zero) collab \<Rightarrow> 'e \<Rightarrow> int \<Rightarrow> 'r \<Rightarrow> int \<Rightarrow> int
     \<Rightarrow> ('e, 'obs, 'act, 'r) Player" where
  "Player_init c e rs gm ms idx =
     (let (s, e') = env_reset c e
      in \<lparr>env = e', reward_steps = rs, gamma = gm, state = s, memory = [],
          episode_reward = 0, step_index = 0, max_steps = ms, player_index = idx\<rparr>)"

subsection \<open>\<^verbatim>\<open>Player._memory_to_samples\<close>\<close>

text \<open>
  The \<^verbatim>\<open>for\<close> loop of lines 85 to 88. The list argument is what is left of
  \<^verbatim>\<open>reversed(self.memory)\<close>; \<open>R\<close> and \<open>result\<close> are the loop's variables.
\<close>

fun samples_loop ::
  "'r::{plus,times,minus} \<Rightarrow> 'r \<Rightarrow> ('obs, 'act, 'r) transition list
     \<Rightarrow> ('obs, 'act, 'r) sample list \<Rightarrow> ('obs, 'act, 'r) sample list" where
  "samples_loop gm R [] result = result"
| "samples_loop gm R ((s, a, reward, val) # ts) result =
     (let R' = reward + R * gm;
          advantage = R' - val
      in samples_loop gm R' ts (result @ [(s, a, R', advantage)]))"

text \<open>
  \<^verbatim>\<open>self.memory.pop()\<close> raises IndexError on an empty list; \<^verbatim>\<open>last_item[-1]\<close> is
  the value estimate, the fourth component of the tuple.
\<close>

definition memory_to_samples ::
  "('e, 'obs, 'act, 'r::{zero,plus,times,minus}) Player \<Rightarrow> bool
     \<Rightarrow> error + (('obs, 'act, 'r) sample list \<times> ('e, 'obs, 'act, 'r) Player)" where
  "memory_to_samples p is_done =
     (if \<not> is_done then
        (case memory p of
           [] \<Rightarrow> Inl IndexError
         | _ # _ \<Rightarrow>
             (let last_item = last (memory p);
                  mem = butlast (memory p);
                  R = snd (snd (snd last_item))
              in Inr (samples_loop (gamma p) R (rev mem) [], p\<lparr>memory := [last_item]\<rparr>)))
      else Inr (samples_loop (gamma p) 0 (rev (memory p)) [], p\<lparr>memory := []\<rparr>))"

subsection \<open>\<^verbatim>\<open>Player.play\<close>\<close>

text \<open>
  One pass through the body of the \<^verbatim>\<open>for\<close> loop (lines 45 to 68). The result says
  whether the pass left the loop through \<^verbatim>\<open>break\<close> (\<open>stop\<close>), which samples it
  added to \<^verbatim>\<open>result\<close> (\<open>produced\<close>), and the player and the random source afterwards.
  \<open>flushes\<close> is a ghost field: the call log of the pass, which lists the
  \<^verbatim>\<open>is_done\<close> argument of every call of \<^verbatim>\<open>_memory_to_samples\<close> the pass made, in call
  order. The pass starts with the empty log and never writes to it; only \<open>flush_call\<close>,
  through which every call goes, adds an entry. The \<^verbatim>\<open>logging.info\<close> call
  of line 59 is not modelled; the conversion \<^verbatim>\<open>int(self.episode_reward)\<close> in its
  arguments is taken to succeed, as it does for every finite sum of rewards.
\<close>

record ('e, 'g, 'obs, 'act, 'r) step_result =
  stop :: bool
  flushes :: "bool list"
  produced :: "('obs, 'act, 'r) sample list"
  player :: "('e, 'obs, 'act, 'r) Player"
  rng :: 'g

text \<open>
  A call \<^verbatim>\<open>self._memory_to_samples(is_done=...)\<close> made by \<^verbatim>\<open>play\<close>, together with the
  entry the call leaves in the call log.
\<close>

definition flush_call ::
  "bool list \<Rightarrow> ('e, 'obs, 'act, 'r::{zero,plus,times,minus}) Player \<Rightarrow> bool
     \<Rightarrow> error + (('obs, 'act, 'r) sample list \<times> ('e, 'obs, 'act, 'r) Player \<times> bool list)" where
  "flush_call calls p is_done =
     (case memory_to_samples p is_done of
        Inl err \<Rightarrow> Inl err
      | Inr (smp, p') \<Rightarrow> Inr (smp, p', calls @ [is_done]))"

definition play_step ::
  "('e, 'g, 'obs, 'act, 'p, 'r::{zero,plus,times,minus}) collab \<Rightarrow> ('e, 'obs, 'act, 'r) Player \<Rightarrow> 'g
     \<Rightarrow> error + ('e, 'g, 'obs, 'act, 'r) step_result" where
  "play_step c p g =
     (let p1 = p\<lparr>step_index := step_index p + 1\<rparr>;
          (probs, val) = predict_on_batch c (state p1);
          (action, g') = random_choice c g probs;
          ((new_state, reward, done), e') = env_step c (env p1) action;
          p2 = p1\<lparr>env := e'\<rparr>;
          p3 = p2\<lparr>episode_reward := episode_reward p2 + reward\<rparr>;
          p4 = p3\<lparr>memory := memory p3 @ [(state p3, action, reward, val)]\<rparr>;
          calls = []
      in if done \<or> step_index p4 > max_steps p4 then
           (let (s0, e'') = env_reset c (env p4);
                p5 = p4\<lparr>env := e'', state := s0\<rparr>;
                p6 = p5\<lparr>episode_reward := 0\<rparr>;
                p7 = p6\<lparr>step_index := 0\<rparr>
            in case flush_call calls p7 done of
                 Inl err \<Rightarrow> Inl err
               | Inr (smp, p8, calls') \<Rightarrow>
                   Inr \<lparr>stop = True, flushes = calls', produced = smp, player = p8, rng = g'\<rparr>)
         else if int (length (memory p4)) = reward_steps p4 + 1 then
           (case flush_call calls p4 False of
              Inl err \<Rightarrow> Inl err
            | Inr (smp, p5, calls') \<Rightarrow>
                Inr \<lparr>stop = False, flushes = calls', produced = smp,
                     player = p5\<lparr>state := new_state\<rparr>, rng = g'\<rparr>)
         else
           Inr \<lparr>stop = False, flushes = calls, produced = [],
                player = p4\<lparr>state := new_state\<rparr>, rng = g'\<rparr>)"

text \<open>
  The \<^verbatim>\<open>for _ in range(steps)\<close> loop: the counter is the number of passes left,
  \<open>result\<close> the list built so far. An exception leaves the loop at once.
\<close>

fun play_loop ::
  "('e, 'g, 'obs, 'act, 'p, 'r::{zero,plus,times,minus}) collab \<Rightarrow> nat \<Rightarrow> ('e, 'obs, 'act, 'r) Player
     \<Rightarrow> 'g \<Rightarrow> ('obs, 'act, 'r) sample list
     \<Rightarrow> error + (('obs, 'act, 'r) sample list \<times> ('e, 'obs, 'act, 'r) Player \<times> 'g)" where
  "play_loop c 0 p g result = Inr (result, p, g)"
| "play_loop c (Suc n) p g result =
     (case play_step c p g of
        Inl err \<Rightarrow> Inl err
      | Inr r \<Rightarrow>
          if stop r then Inr (result @ produced r, player r, rng r)
          else play_loop c n (player r) (rng r) (result @ produced r))"

text \<open>\<^verbatim>\<open>range(steps)\<close> is empty for \<^verbatim>\<open>steps <= 0\<close>.\<close>

definition play ::
  "('e, 'g, 'obs, 'act, 'p, 'r::{zero,plus,times,minus}) collab \<Rightarrow> int \<Rightarrow> ('e, 'obs, 'act, 'r) Player
     \<Rightarrow> 'g \<Rightarrow> error + (('obs, 'act, 'r) sample list \<times> ('e, 'obs, 'act, 'r) Player \<times> 'g)" where
  "play c steps p g = play_loop c (nat steps) p g []"

text \<open>A sequence of \<^verbatim>\<open>play\<close> calls on one player, the samples dropped.\<close>

fun plays ::
  "('e, 'g, 'obs, 'act, 'p, 'r::{zero,plus,times,minus}) collab \<Rightarrow> int list \<Rightarrow> ('e, 'obs, 'act, 'r) Player
     \<Rightarrow> 'g \<Rightarrow> error + (('e, 'obs, 'act, 'r) Player \<times> 'g)" where
  "plays c [] p g = Inr (p, g)"
| "plays c (n # ns) p g =
     (case play c n p g of
        Inl err \<Rightarrow> Inl err
      | Inr (smp, p', g') \<Rightarrow> plays c ns p' g')"

subsection \<open>\<^verbatim>\<open>generate_batches\<close>\<close>

text \<open>
  \<^verbatim>\<open>for player in players: samples.extend(player.play(1))\<close>: one round. The players are
  advanced in list order; the random source is shared.
\<close>

fun play_all ::
  "('e, 'g, 'obs, 'act, 'p, 'r::{zero,plus,times,minus}) collab \<Rightarrow> ('e, 'obs, 'act, 'r) Player list
     \<Rightarrow> 'g \<Rightarrow> ('obs, 'act, 'r) sample list
     \<Rightarrow> error + (('e, 'obs, 'act, 'r) Player list \<times> 'g \<times> ('obs, 'act, 'r) sample list)" where
  "play_all c [] g samples = Inr ([], g, samples)"
| "play_all c (p # ps) g samples =
     (case play c 1 p g of
        Inl err \<Rightarrow> Inl err
      | Inr (smp, p', g') \<Rightarrow>
          (case play_all c ps g' (samples @ smp) of
             Inl err \<Rightarrow> Inl err
           | Inr (ps', g'', samples') \<Rightarrow> Inr (p' # ps', g'', samples')))"

text \<open>
  Line 101 and the value of line 102. \<^verbatim>\<open>zip(*chunk)\<close> of an empty chunk has no
  element and the unpacking into four names raises ValueError; otherwise it has the four
  columns of the chunk. The arrays are lists here.
\<close>

type_synonym ('obs, 'act, 'r) batch =
  "('obs list \<times> 'act list \<times> 'r list) \<times> ('r list \<times> 'r list)"

definition make_batch :: "('obs, 'act, 'r) sample list \<Rightarrow> error + ('obs, 'act, 'r) batch" where
  "make_batch chunk =
     (if chunk = [] then Inl ValueError
      else
        (let states = map (\<lambda>(s, a, R, adv). s) chunk;
             actions = map (\<lambda>(s, a, R, adv). a) chunk;
             rewards = map (\<lambda>(s, a, R, adv). R) chunk;
             advantages = map (\<lambda>(s, a, R, adv). adv) chunk
         in Inr ((states, actions, advantages), (rewards, rewards))))"

text \<open>
  The generator. Between two \<^verbatim>\<open>yield\<close>s its state is the players, the pool
  \<^verbatim>\<open>samples\<close> and the place where it is suspended: not started, or at the
  \<^verbatim>\<open>yield\<close> of line 102. \<open>batch_size\<close> is a length: \<open>nat\<close>.
\<close>

datatype gen_pc = Not_started | At_yield

record ('e, 'obs, 'act, 'r) gen =
  players :: "('e, 'obs, 'act, 'r) Player list"
  samples :: "('obs, 'act, 'r) sample list"
  pc :: gen_pc

definition generate_batches :: "('e, 'obs, 'act, 'r) Player list \<Rightarrow> ('e, 'obs, 'act, 'r) gen" where
  "generate_batches ps = \<lparr>players = ps, samples = [], pc = Not_started\<rparr>"

text \<open>
  The inner \<^verbatim>\<open>while\<close> test with the pool at hand, line 101 and the \<^verbatim>\<open>yield\<close>.
\<close>

definition emit ::
  "nat \<Rightarrow> ('e, 'obs, 'act, 'r) gen
     \<Rightarrow> error + (('obs, 'act, 'r) batch \<times> ('e, 'obs, 'act, 'r) gen)" where
  "emit batch_size G =
     (case make_batch (take batch_size (samples G)) of
        Inl err \<Rightarrow> Inl err
      | Inr b \<Rightarrow> Inr (b, G\<lparr>pc := At_yield\<rparr>))"

text \<open>
  The outer \<^verbatim>\<open>while True\<close> loop from the top of its body up to the next
  \<^verbatim>\<open>yield\<close>. The loop need not reach one (no player, or players that never flush),
  so the number of rounds is bounded by fuel; \<open>None\<close> is fuel run out.
\<close>

fun rounds ::
  "nat \<Rightarrow> ('e, 'g, 'obs, 'act, 'p, 'r::{zero,plus,times,minus}) collab \<Rightarrow> nat
     \<Rightarrow> ('e, 'obs, 'act, 'r) gen \<Rightarrow> 'g
     \<Rightarrow> (error + (('obs, 'act, 'r) batch \<times> ('e, 'obs, 'act, 'r) gen \<times> 'g)) option" where
  "rounds 0 c batch_size G g = None"
| "rounds (Suc fuel) c batch_size G g =
     (case play_all c (players G) g (samples G) of
        Inl err \<Rightarrow> Some (Inl err)
      | Inr (ps', g', samples') \<Rightarrow>
          (let G' = G\<lparr>players := ps', samples := samples'\<rparr>
           in if length (samples G') \<ge> batch_size then
                (case emit batch_size G' of
                   Inl err \<Rightarrow> Some (Inl err)
                 | Inr (b, G'') \<Rightarrow> Some (Inr (b, G'', g')))
              else rounds fuel c batch_size G' g'))"

text \<open>
  Asking the generator for its next batch. Resumed at the \<^verbatim>\<open>yield\<close>, it first runs
  line 103, \<^verbatim>\<open>samples = samples[batch_size:]\<close>, and the inner \<^verbatim>\<open>while\<close> test again.
\<close>

definition gen_next ::
  "nat \<Rightarrow> ('e, 'g, 'obs, 'act, 'p, 'r::{zero,plus,times,minus}) collab \<Rightarrow> nat
     \<Rightarrow> ('e, 'obs, 'act, 'r) gen \<Rightarrow> 'g
     \<Rightarrow> (error + (('obs, 'act, 'r) batch \<times> ('e, 'obs, 'act, 'r) gen \<times> 'g)) option" where
  "gen_next fuel c batch_size G g =
     (case pc G of
        Not_started \<Rightarrow> rounds fuel c batch_size G g
      | At_yield \<Rightarrow>
          (let G' = G\<lparr>samples := drop batch_size (samples G)\<rparr>
           in if length (samples G') \<ge> batch_size then
                (case emit batch_size G' of
                   Inl err \<Rightarrow> Some (Inl err)
                 | Inr (b, G'') \<Rightarrow> Some (Inr (b, G'', g)))
              else rounds fuel c batch_size G' g))"

subsection \<open>Vocabulary of the properties\<close>

text \<open>
  The transitions a flush turns into samples, and the return it starts from: the whole
  memory and \<open>0\<close> when \<^verbatim>\<open>is_done\<close> holds, otherwise the memory without its last
  entry and that entry's value estimate.
\<close>

definition consumed :: "('e, 'obs, 'act, 'r) Player \<Rightarrow> bool \<Rightarrow> ('obs, 'act, 'r) transition list" where
  "consumed p is_done = (if is_done then memory p else butlast (memory p))"

definition seed :: "('e, 'obs, 'act, 'r::zero) Player \<Rightarrow> bool \<Rightarrow> 'r" where
  "seed p is_done = (if is_done then 0 else snd (snd (snd (last (memory p)))))"

text \<open>The return label \<open>R\<close> of a sample, its third component.\<close>

definition sample_return :: "('obs, 'act, 'r) sample \<Rightarrow> 'r" where
  "sample_return x = fst (snd (snd x))"

text \<open>
  Successive passes of the loop body on one player, as successive calls
  \<^verbatim>\<open>play(1)\<close> of the generator make them, up to and including the first pass that
  calls \<^verbatim>\<open>_memory_to_samples\<close>. \<open>None\<close> is fuel run out.
\<close>

fun until_flush ::
  "nat \<Rightarrow> ('e, 'g, 'obs, 'act, 'p, 'r::{zero,plus,times,minus}) collab \<Rightarrow> ('e, 'obs, 'act, 'r) Player
     \<Rightarrow> 'g \<Rightarrow> (error + ('e, 'g, 'obs, 'act, 'r) step_result) option" where
  "until_flush 0 c p g = None"
| "until_flush (Suc k) c p g =
     (case play_step c p g of
        Inl err \<Rightarrow> Some (Inl err)
      | Inr r \<Rightarrow>
          if flushes r \<noteq> [] then Some (Inr r)
          else until_flush k c (player r) (rng r))"

text \<open>\<open>k\<close> rounds of the generator's outer loop, the inner \<^verbatim>\<open>while\<close> left out.\<close>

fun run_rounds ::
  "nat \<Rightarrow> ('e, 'g, 'obs, 'act, 'p, 'r::{zero,plus,times,minus}) collab \<Rightarrow> ('e, 'obs, 'act, 'r) Player list
     \<Rightarrow> 'g \<Rightarrow> ('obs, 'act, 'r) sample list
     \<Rightarrow> error + (('e, 'obs, 'act, 'r) Player list \<times> 'g \<times> ('obs, 'act, 'r) sample list)" where
  "run_rounds 0 c ps g pool = Inr (ps, g, pool)"
| "run_rounds (Suc k) c ps g pool =
     (case play_all c ps g pool of
        Inl err \<Rightarrow> Inl err
      | Inr (ps', g', pool') \<Rightarrow> run_rounds k c ps' g' pool')"

subsection \<open>Concrete collaborators and players\<close>

text \<open>
  An environment that counts the steps of its episode: the observation is the count, the
  reward of the \<open>n\<close>-th step is \<open>n\<close>, and the episode is done at step \<open>limit\<close>
  (never, for \<open>limit = 0\<close>). The network values observation \<open>s\<close> at \<open>10 s + 5\<close>; the
  random source is a counter and the action drawn is its parity.
\<close>

definition counting_world :: "nat \<Rightarrow> (nat, nat, nat, nat, unit, int) collab" where
  "counting_world limit =
     \<lparr>predict_on_batch = (\<lambda>s. ((), 10 * int s + 5)),
      random_choice = (\<lambda>g probs. (g mod 2, Suc g)),
      env_reset = (\<lambda>e. (0, 0)),
      env_step = (\<lambda>e a. ((Suc e, int (Suc e), Suc e = limit), Suc e))\<rparr>"

text \<open>
  A player of that world two steps into an episode (the random source is then at \<open>2\<close>),
  with \<open>reward_steps\<close> and \<open>max_steps\<close> left open.
\<close>

definition two_step_player :: "int \<Rightarrow> int \<Rightarrow> (nat, nat, nat, int) Player" where
  "two_step_player rs ms =
     \<lparr>env = 2, reward_steps = rs, gamma = 2, state = 2,
      memory = [(0, 0, 1, 5), (1, 1, 2, 15)],
      episode_reward = 3, step_index = 2, max_steps = ms, player_index = 0\<rparr>"

text \<open>
  The segment of the specification's scenario: rewards \<open>1, 2, 3\<close>, value estimates
  \<open>0.5, 0.3, 0.1\<close>, \<open>gamma = 0.5\<close>, over the reals.
\<close>

definition scenario_player :: "(unit, nat, nat, real) Player" where
  "scenario_player =
     \<lparr>env = (), reward_steps = 2, gamma = 0.5, state = 3,
      memory = [(0, 0, 1, 0.5), (1, 1, 2, 0.3), (2, 2, 3, 0.1)],
      episode_reward = 6, step_index = 3, max_steps = 40000, player_index = 0\<rparr>"

text \<open>
  Two players of the world whose episodes last three steps, and the generator over them
  suspended at its first \<^verbatim>\<open>yield\<close>, after three rounds (the pool then goes from one
  sample to six, so this is the first \<^verbatim>\<open>yield\<close> for every \<open>batch_size\<close> from
  \<open>2\<close> to \<open>6\<close>).
\<close>

definition two_players :: "(nat, nat, nat, int) Player list" where
  "two_players =
     [Player_init (counting_world 3) 0 2 2 100 0, Player_init (counting_world 3) 0 1 2 100 1]"

definition after_three_rounds :: "(nat, nat, nat, int) gen" where
  "after_three_rounds =
     \<lparr>players =
        [\<lparr>env = 0, reward_steps = 2, gamma = 2, state = 0, memory = [],
          episode_reward = 0, step_index = 0, max_steps = 100, player_index = 0\<rparr>,
         \<lparr>env = 0, reward_steps = 1, gamma = 2, state = 0, memory = [],
          episode_reward = 0, step_index = 0, max_steps = 100, player_index = 1\<rparr>],
      samples = [(0, 1, 31, 26), (2, 0, 3, - 22), (1, 0, 8, - 7),
                 (0, 0, 17, 12), (2, 1, 3, - 22), (1, 1, 8, - 7)],
      pc = At_yield\<rparr>"

text \<open>
  The same generator run with \<open>batch_size = 4\<close>, suspended at its second
  \<^verbatim>\<open>yield\<close>: three more rounds after the first one.
\<close>

definition after_six_rounds :: "(nat, nat, nat, int) gen" where
  "after_six_rounds =
     \<lparr>players =
        [\<lparr>env = 0, reward_steps = 2, gamma = 2, state = 0, memory = [],
          episode_reward = 0, step_index = 0, max_steps = 100, player_index = 0\<rparr>,
         \<lparr>env = 0, reward_steps = 1, gamma = 2, state = 0, memory = [],
          episode_reward = 0, step_index = 0, max_steps = 100, player_index = 1\<rparr>],
      samples = [(2, 1, 3, - 22), (1, 1, 8, - 7), (0, 1, 31, 26), (2, 0, 3, - 22),
                 (1, 0, 8, - 7), (0, 0, 17, 12), (2, 1, 3, - 22), (1, 1, 8, - 7)],
      pc = At_yield\<rparr>"

section \<open>Auxiliary facts\<close>

subsection \<open>The sample loop and the flush\<close>

lemma samples_loop_acc:
  "samples_loop gm R ts acc = acc @ samples_loop gm R ts []"
proof (induction ts arbitrary: R acc)
  case Nil
  show ?case by simp
next
  case (Cons t ts)
  obtain s a rw v where t: "t = (s, a, rw, v)" by (cases t) auto
  show ?case
    using Cons.IH [of "rw + R * gm" "acc @ [(s, a, rw + R * gm, rw + R * gm - v)]"]
          Cons.IH [of "rw + R * gm" "[(s, a, rw + R * gm, rw + R * gm - v)]"]
    by (simp add: t Let_def)
qed

lemma samples_loop_Cons:
  "samples_loop gm R ((s, a, rw, v) # ts) [] =
     (s, a, rw + R * gm, rw + R * gm - v) # samples_loop gm (rw + R * gm) ts []"
  using samples_loop_acc [of gm "rw + R * gm" ts "[(s, a, rw + R * gm, rw + R * gm - v)]"]
  by (simp add: Let_def)

lemma length_samples_loop: "length (samples_loop gm R ts []) = length ts"
proof (induction ts arbitrary: R)
  case Nil
  show ?case by simp
next
  case (Cons t ts)
  obtain s a rw v where t: "t = (s, a, rw, v)" by (cases t) auto
  show ?case unfolding t samples_loop_Cons by (simp add: Cons.IH)
qed

lemma samples_loop_nth:
  "i < length ts \<Longrightarrow>
   samples_loop gm R ts [] ! i =
     (case ts ! i of (s, a, rw, v) \<Rightarrow>
        (let R' = rw + (if i = 0 then R else sample_return (samples_loop gm R ts [] ! (i - 1))) * gm
         in (s, a, R', R' - v)))"
proof (induction ts arbitrary: R i)
  case Nil
  then show ?case by simp
next
  case (Cons t ts)
  obtain s a rw v where t: "t = (s, a, rw, v)" by (cases t) auto
  show ?case
  proof (cases i)
    case 0
    then show ?thesis unfolding t samples_loop_Cons by (simp add: Let_def)
  next
    case (Suc j)
    with Cons.prems have j: "j < length ts" by simp
    show ?thesis
    proof (cases j)
      case 0
      with j have "ts \<noteq> []" by auto
      then obtain u us where ts: "ts = u # us" by (cases ts) auto
      obtain s' a' rw' v' where u: "u = (s', a', rw', v')" by (cases u) auto
      show ?thesis unfolding t ts u samples_loop_Cons Suc 0
        by (simp add: Let_def sample_return_def)
    next
      case (Suc k)
      show ?thesis
        using Cons.IH [OF j, of "rw + R * gm"] unfolding t samples_loop_Cons \<open>i = Suc j\<close> Suc
        by simp
    qed
  qed
qed

lemma memory_to_samples_terminal:
  "memory_to_samples p True = Inr (samples_loop (gamma p) 0 (rev (memory p)) [], p\<lparr>memory := []\<rparr>)"
  by (simp add: memory_to_samples_def)

lemma memory_to_samples_bootstrap:
  "memory p \<noteq> [] \<Longrightarrow>
   memory_to_samples p False =
     Inr (samples_loop (gamma p) (snd (snd (snd (last (memory p))))) (rev (butlast (memory p))) [],
          p\<lparr>memory := [last (memory p)]\<rparr>)"
  by (cases "memory p") (simp_all add: memory_to_samples_def Let_def)

lemma memory_to_samples_Inr:
  "is_done \<or> memory p \<noteq> [] \<Longrightarrow>
   memory_to_samples p is_done =
     Inr (samples_loop (gamma p) (seed p is_done) (rev (consumed p is_done)) [],
          p\<lparr>memory := (if is_done then [] else [last (memory p)])\<rparr>)"
  by (cases is_done) (simp_all add: memory_to_samples_terminal memory_to_samples_bootstrap seed_def consumed_def)

lemma memory_to_samples_empty: "memory_to_samples p False = Inl IndexError \<longleftrightarrow> memory p = []"
  by (cases "memory p") (simp_all add: memory_to_samples_def Let_def)

lemma samples_loop_last:
  assumes "ts \<noteq> []" and "last ts = (s, a, rw, v)"
  shows "\<exists>R. last (samples_loop gm R0 ts []) = (s, a, R, R - v)"
proof -
  let ?i = "length ts - 1"
  from assms(1) have i: "?i < length ts" by (cases ts) auto
  have ne: "samples_loop gm R0 ts [] \<noteq> []"
    using assms(1) length_samples_loop [of gm R0 ts] by auto
  have "last (samples_loop gm R0 ts []) = samples_loop gm R0 ts [] ! ?i"
    using ne by (simp add: last_conv_nth length_samples_loop)
  moreover have "ts ! ?i = (s, a, rw, v)"
    using assms by (simp add: last_conv_nth)
  ultimately show ?thesis
    using samples_loop_nth [OF i, of gm R0] by (simp add: Let_def)
qed

subsection \<open>One pass of the loop body\<close>

lemma play_step_result:
  assumes "predict_on_batch c (state p) = (probs, val)"
      and "random_choice c g probs = (action, g')"
      and "env_step c (env p) action = ((new_state, reward, done), e')"
  shows "\<exists>r. play_step c p g = Inr r
     \<and> rng r = g'
     \<and> reward_steps (player r) = reward_steps p
     \<and> gamma (player r) = gamma p
     \<and> max_steps (player r) = max_steps p
     \<and> player_index (player r) = player_index p
     \<and> (if done \<or> step_index p + 1 > max_steps p then
          stop r \<and> flushes r = [done]
          \<and> produced r = samples_loop (gamma p) (if done then 0 else val)
                (rev (if done then memory p @ [(state p, action, reward, val)] else memory p)) []
          \<and> env (player r) = snd (env_reset c e')
          \<and> state (player r) = fst (env_reset c e')
          \<and> memory (player r) = (if done then [] else [(state p, action, reward, val)])
          \<and> episode_reward (player r) = 0
          \<and> step_index (player r) = 0
        else
          \<not> stop r
          \<and> env (player r) = e'
          \<and> state (player r) = new_state
          \<and> episode_reward (player r) = episode_reward p + reward
          \<and> step_index (player r) = step_index p + 1
          \<and> (if int (length (memory p @ [(state p, action, reward, val)])) = reward_steps p + 1 then
                flushes r = [False]
                \<and> produced r = samples_loop (gamma p) val (rev (memory p)) []
                \<and> memory (player r) = [(state p, action, reward, val)]
              else
                flushes r = [] \<and> produced r = []
                \<and> memory (player r) = memory p @ [(state p, action, reward, val)]))"
  using assms
  by (simp add: play_step_def flush_call_def Let_def split_beta memory_to_samples_terminal memory_to_samples_bootstrap)

lemma play_step_calls:
  assumes "predict_on_batch c (state p) = (probs, val)"
      and "random_choice c g probs = (action, g')"
      and "env_step c (env p) action = ((new_state, reward, done), e')"
  shows "play_step c p g =
     (if done \<or> step_index p + 1 > max_steps p then
        (case flush_call []
                \<lparr>env = snd (env_reset c e'), reward_steps = reward_steps p, gamma = gamma p,
                 state = fst (env_reset c e'),
                 memory = memory p @ [(state p, action, reward, val)],
                 episode_reward = 0, step_index = 0, max_steps = max_steps p,
                 player_index = player_index p\<rparr> done of
           Inl err \<Rightarrow> Inl err
         | Inr (smp, q, calls) \<Rightarrow>
             Inr \<lparr>stop = True, flushes = calls, produced = smp, player = q, rng = g'\<rparr>)
      else if int (length (memory p @ [(state p, action, reward, val)])) = reward_steps p + 1 then
        (case flush_call []
                \<lparr>env = e', reward_steps = reward_steps p, gamma = gamma p, state = state p,
                 memory = memory p @ [(state p, action, reward, val)],
                 episode_reward = episode_reward p + reward, step_index = step_index p + 1,
                 max_steps = max_steps p, player_index = player_index p\<rparr> False of
           Inl err \<Rightarrow> Inl err
         | Inr (smp, q, calls) \<Rightarrow>
             Inr \<lparr>stop = False, flushes = calls, produced = smp,
                  player = q\<lparr>state := new_state\<rparr>, rng = g'\<rparr>)
      else
        Inr \<lparr>stop = False, flushes = [], produced = [],
             player = \<lparr>env = e', reward_steps = reward_steps p, gamma = gamma p, state = new_state,
                 memory = memory p @ [(state p, action, reward, val)],
                 episode_reward = episode_reward p + reward, step_index = step_index p + 1,
                 max_steps = max_steps p, player_index = player_index p\<rparr>, rng = g'\<rparr>)"
  using assms by (cases p) (simp add: play_step_def Let_def split_beta cong: sum.case_cong)

lemma flush_call_total:
  assumes "is_done \<or> memory p \<noteq> []"
  shows "\<exists>smp q. flush_call calls p is_done = Inr (smp, q, calls @ [is_done])
           \<and> memory_to_samples p is_done = Inr (smp, q)"
  using memory_to_samples_Inr [OF assms] by (simp add: flush_call_def)

lemma play_step_cases:
  obtains probs val action g' new_state reward dn e' where
    "predict_on_batch c (state p) = (probs, val)"
    "random_choice c g probs = (action, g')"
    "env_step c (env p) action = ((new_state, reward, dn), e')"
proof -
  obtain probs val where 1: "predict_on_batch c (state p) = (probs, val)"
    by (cases "predict_on_batch c (state p)") auto
  obtain action g' where 2: "random_choice c g probs = (action, g')"
    by (cases "random_choice c g probs") auto
  obtain new_state reward dn e' where 3: "env_step c (env p) action = ((new_state, reward, dn), e')"
    by (cases "env_step c (env p) action") auto
  from 1 2 3 show ?thesis by (rule that)
qed

lemma play_step_total: "\<exists>r. play_step c p g = Inr r"
proof -
  obtain probs val action g' new_state reward dn e' where
    "predict_on_batch c (state p) = (probs, val)"
    "random_choice c g probs = (action, g')"
    "env_step c (env p) action = ((new_state, reward, dn), e')"
    by (rule play_step_cases)
  from play_step_result [OF this] show ?thesis by blast
qed

lemma play_step_bound:
  assumes "1 \<le> reward_steps p" and "int (length (memory p)) \<le> reward_steps p"
      and "play_step c p g = Inr r"
  shows "reward_steps (player r) = reward_steps p
       \<and> int (length (memory (player r))) \<le> reward_steps p"
proof -
  obtain probs val action g' new_state reward dn e' where
    "predict_on_batch c (state p) = (probs, val)"
    "random_choice c g probs = (action, g')"
    "env_step c (env p) action = ((new_state, reward, dn), e')"
    by (rule play_step_cases)
  from play_step_result [OF this] assms show ?thesis
    by (auto split: if_splits)
qed

lemma play_step_after_flush:
  assumes "play_step c p g = Inr r" and "flushes r \<noteq> []"
  shows "length (memory (player r)) = (if flushes r = [True] then 0 else 1)"
proof -
  obtain probs val action g' new_state reward dn e' where
    "predict_on_batch c (state p) = (probs, val)"
    "random_choice c g probs = (action, g')"
    "env_step c (env p) action = ((new_state, reward, dn), e')"
    by (rule play_step_cases)
  from play_step_result [OF this] assms show ?thesis
    by (auto split: if_splits)
qed

lemma play_loop_bound:
  assumes "1 \<le> reward_steps p" and "int (length (memory p)) \<le> reward_steps p"
  shows "\<exists>smp p' g'. play_loop c n p g result = Inr (smp, p', g')
           \<and> reward_steps p' = reward_steps p
           \<and> int (length (memory p')) \<le> reward_steps p"
  using assms
proof (induction n arbitrary: p g result)
  case 0
  then show ?case by simp
next
  case (Suc n)
  obtain r where r: "play_step c p g = Inr r" using play_step_total [of c p g] by blast
  from play_step_bound [OF Suc.prems r]
  have b: "reward_steps (player r) = reward_steps p"
          "int (length (memory (player r))) \<le> reward_steps p" by simp_all
  show ?case
  proof (cases "stop r")
    case True
    with r b show ?thesis by simp
  next
    case False
    from Suc.IH [of "player r" "rng r" "result @ produced r"] Suc.prems b
    show ?thesis using r False by simp
  qed
qed

lemma plays_bound:
  assumes "1 \<le> reward_steps p" and "int (length (memory p)) \<le> reward_steps p"
  shows "\<exists>p' g'. plays c ns p g = Inr (p', g')
           \<and> reward_steps p' = reward_steps p
           \<and> int (length (memory p')) \<le> reward_steps p"
  using assms
proof (induction ns arbitrary: p g)
  case Nil
  then show ?case by simp
next
  case (Cons n ns)
  from play_loop_bound [OF Cons.prems, of c "nat n" g "[]"]
  obtain smp p1 g1 where 1: "play c n p g = Inr (smp, p1, g1)"
      "reward_steps p1 = reward_steps p" "int (length (memory p1)) \<le> reward_steps p"
    unfolding play_def by blast
  from Cons.IH [of p1 g1] 1 Cons.prems show ?case by simp
qed

lemma Player_init_fields:
  "memory (Player_init c e rs gm ms idx) = []"
  "reward_steps (Player_init c e rs gm ms idx) = rs"
  "max_steps (Player_init c e rs gm ms idx) = ms"
  "step_index (Player_init c e rs gm ms idx) = 0"
  "gamma (Player_init c e rs gm ms idx) = gm"
  "state (Player_init c e rs gm ms idx) = fst (env_reset c e)"
  "env (Player_init c e rs gm ms idx) = snd (env_reset c e)"
  by (simp_all add: Player_init_def split_beta)

lemma until_flush_head:
  assumes "memory p = (s, a, rw, v) # rest"
      and "max_steps p - step_index p < int k" and "0 < k"
  shows "\<exists>r. until_flush k c p g = Some (Inr r) \<and> produced r \<noteq> []
           \<and> (\<exists>R. last (produced r) = (s, a, R, R - v))"
  using assms
proof (induction k arbitrary: p g rest)
  case 0
  then show ?case by simp
next
  case (Suc k)
  obtain probs val action g' new_state reward dn e' where obs:
    "predict_on_batch c (state p) = (probs, val)"
    "random_choice c g probs = (action, g')"
    "env_step c (env p) action = ((new_state, reward, dn), e')"
    by (rule play_step_cases)
  from play_step_result [OF obs] obtain r where r: "play_step c p g = Inr r"
    and mx: "max_steps (player r) = max_steps p"
    and res: "if dn \<or> step_index p + 1 > max_steps p then
          flushes r = [dn]
          \<and> produced r = samples_loop (gamma p) (if dn then 0 else val)
                (rev (if dn then memory p @ [(state p, action, reward, val)] else memory p)) []
        else
          step_index (player r) = step_index p + 1
          \<and> (if int (length (memory p @ [(state p, action, reward, val)])) = reward_steps p + 1 then
                flushes r = [False]
                \<and> produced r = samples_loop (gamma p) val (rev (memory p)) []
              else
                flushes r = []
                \<and> memory (player r) = memory p @ [(state p, action, reward, val)])"
    by (auto split: if_splits)
  let ?t = "(state p, action, reward, val)"
  have flushed: ?case
    if fl: "flushes r \<noteq> []" and pr: "produced r = samples_loop (gamma p) R0 (rev ts) []"
      and ts: "ts = memory p \<or> ts = memory p @ [?t]" for R0 ts
  proof -
    from ts Suc.prems(1) have ne: "rev ts \<noteq> []" and la: "last (rev ts) = (s, a, rw, v)"
      by (auto simp: last_rev)
    from samples_loop_last [OF ne la, of "gamma p" R0]
    obtain R where R: "last (produced r) = (s, a, R, R - v)" unfolding pr by blast
    have "produced r \<noteq> []"
      using ne length_samples_loop [of "gamma p" R0 "rev ts"] unfolding pr by auto
    with R r fl show ?thesis by simp
  qed
  show ?case
  proof (cases "dn \<or> step_index p + 1 > max_steps p")
    case True
    with res show ?thesis by (intro flushed [of "if dn then 0 else val" "if dn then memory p @ [?t] else memory p"]) auto
  next
    case nt: False
    show ?thesis
    proof (cases "int (length (memory p @ [?t])) = reward_steps p + 1")
      case True
      with res nt show ?thesis by (intro flushed [of val "memory p"]) auto
    next
      case False
      with res nt have nf: "flushes r = []"
        and mem: "memory (player r) = (s, a, rw, v) # (rest @ [?t])"
        and si: "step_index (player r) = step_index p + 1"
        using Suc.prems(1) by auto
      from Suc.prems(2) si mx nt
      have "max_steps (player r) - step_index (player r) < int k" and "0 < k" by auto
      from Suc.IH [OF mem this, of "rng r"] show ?thesis using r nf by simp
    qed
  qed
qed

subsection \<open>The generator\<close>

lemma emit_Inr:
  "emit bs G = Inr (b, G') \<longleftrightarrow> make_batch (take bs (samples G)) = Inr b \<and> G' = G\<lparr>pc := At_yield\<rparr>"
  by (auto simp: emit_def split: sum.splits)

lemma rounds_emitted:
  assumes "rounds fuel c bs G g = Some (Inr (b, G', g'))"
  shows "bs \<le> length (samples G') \<and> make_batch (take bs (samples G')) = Inr b \<and> pc G' = At_yield
       \<and> (\<exists>k. run_rounds k c (players G) g (samples G) = Inr (players G', g', samples G'))"
  using assms
proof (induction fuel arbitrary: G g)
  case 0
  then show ?case by simp
next
  case (Suc fuel)
  from Suc.prems obtain ps1 g1 pool1 where pa: "play_all c (players G) g (samples G) = Inr (ps1, g1, pool1)"
    by (auto split: sum.splits)
  let ?G1 = "G\<lparr>players := ps1, samples := pool1\<rparr>"
  show ?case
  proof (cases "bs \<le> length pool1")
    case True
    with Suc.prems pa have "emit bs ?G1 = Inr (b, G')" and "g' = g1"
      by (auto simp: Let_def split: sum.splits)
    then have "make_batch (take bs pool1) = Inr b" and G': "G' = ?G1\<lparr>pc := At_yield\<rparr>"
      by (simp_all add: emit_Inr)
    moreover have "run_rounds (Suc 0) c (players G) g (samples G) = Inr (ps1, g1, pool1)"
      using pa by simp
    ultimately show ?thesis using True \<open>g' = g1\<close> by (auto simp del: run_rounds.simps)
  next
    case False
    with Suc.prems pa have "rounds fuel c bs ?G1 g1 = Some (Inr (b, G', g'))"
      by (simp add: Let_def)
    from Suc.IH [OF this] obtain k where
      1: "bs \<le> length (samples G')" "make_batch (take bs (samples G')) = Inr b" "pc G' = At_yield"
      and k: "run_rounds k c ps1 g1 pool1 = Inr (players G', g', samples G')"
      by auto
    have "run_rounds (Suc k) c (players G) g (samples G) = Inr (players G', g', samples G')"
      using pa k by simp
    with 1 show ?thesis by blast
  qed
qed

lemma gen_next_emitted:
  assumes "gen_next fuel c bs G g = Some (Inr (b, G', g'))"
  shows "bs \<le> length (samples G') \<and> make_batch (take bs (samples G')) = Inr b \<and> pc G' = At_yield
       \<and> (\<exists>k. run_rounds k c (players G) g
                  (case pc G of Not_started \<Rightarrow> samples G | At_yield \<Rightarrow> drop bs (samples G))
                = Inr (players G', g', samples G'))"
proof (cases "pc G")
  case Not_started
  with assms have "rounds fuel c bs G g = Some (Inr (b, G', g'))" by (simp add: gen_next_def)
  from rounds_emitted [OF this] Not_started show ?thesis by simp
next
  case At_yield
  let ?G1 = "G\<lparr>samples := drop bs (samples G)\<rparr>"
  show ?thesis
  proof (cases "bs \<le> length (samples ?G1)")
    case True
    with assms At_yield have "emit bs ?G1 = Inr (b, G')" and "g' = g"
      by (auto simp: gen_next_def Let_def split: sum.splits)
    then have "make_batch (take bs (samples ?G1)) = Inr b" and G': "G' = ?G1\<lparr>pc := At_yield\<rparr>"
      by (simp_all add: emit_Inr)
    moreover have "run_rounds 0 c (players G) g (drop bs (samples G)) = Inr (players G, g, drop bs (samples G))"
      by simp
    ultimately show ?thesis using True At_yield \<open>g' = g\<close> by (auto simp del: run_rounds.simps)
  next
    case False
    with assms At_yield have "rounds fuel c bs ?G1 g = Some (Inr (b, G', g'))"
      by (simp add: gen_next_def Let_def)
    from rounds_emitted [OF this] At_yield show ?thesis by simp
  qed
qed

lemma make_batch_Inr:
  assumes "make_batch chunk = Inr b"
  shows "chunk \<noteq> []
       \<and> b = ((map (\<lambda>(s, a, R, adv). s) chunk, map (\<lambda>(s, a, R, adv). a) chunk,
               map (\<lambda>(s, a, R, adv). adv) chunk),
              (map (\<lambda>(s, a, R, adv). R) chunk, map (\<lambda>(s, a, R, adv). R) chunk))"
  using assms by (auto simp: make_batch_def Let_def split: if_splits)

lemma play_all_order:
  assumes "play_all c ps h pool = Inr (ps', h', pool')"
  shows "\<exists>outs hs. length outs = length ps \<and> length ps' = length ps \<and> length hs = length ps + 1
           \<and> hs ! 0 = h \<and> hs ! length ps = h'
           \<and> pool' = pool @ concat outs
           \<and> (\<forall>i < length ps. play c 1 (ps ! i) (hs ! i) = Inr (outs ! i, ps' ! i, hs ! Suc i))"
  using assms
proof (induction ps arbitrary: h pool ps')
  case Nil
  then show ?case by (intro exI [of _ "[]"] exI [of _ "[h]"]) auto
next
  case (Cons p ps)
  from Cons.prems obtain smp p1 h1 ps1 where
    1: "play c 1 p h = Inr (smp, p1, h1)"
    and 2: "play_all c ps h1 (pool @ smp) = Inr (ps1, h', pool')"
    and 3: "ps' = p1 # ps1"
    by (auto split: sum.splits)
  from Cons.IH [OF 2] obtain outs hs where ih:
    "length outs = length ps" "length ps1 = length ps" "length hs = length ps + 1"
    "hs ! 0 = h1" "hs ! length ps = h'" "pool' = (pool @ smp) @ concat outs"
    "\<forall>i < length ps. play c 1 (ps ! i) (hs ! i) = Inr (outs ! i, ps1 ! i, hs ! Suc i)"
    by blast
  have "\<forall>i < length (p # ps). play c 1 ((p # ps) ! i) ((h # hs) ! i)
          = Inr ((smp # outs) ! i, ps' ! i, (h # hs) ! Suc i)"
  proof (intro allI impI)
    fix i assume "i < length (p # ps)"
    then show "play c 1 ((p # ps) ! i) ((h # hs) ! i) = Inr ((smp # outs) ! i, ps' ! i, (h # hs) ! Suc i)"
      using 1 3 ih(4,7) by (cases i) auto
  qed
  with ih 3 show ?case
    by (intro exI [of _ "smp # outs"] exI [of _ "h # hs"]) auto
qed

lemma run_rounds_Suc:
  assumes "play_all c ps g pool = Inr (ps1, g1, pool1)"
  shows "run_rounds (Suc j) c ps g pool = run_rounds j c ps1 g1 pool1"
  using assms by simp

lemma rounds_exact_forward:
  assumes "rounds fuel c bs G g = Some (Inr (b, G', g'))"
  shows "\<exists>k. 1 \<le> k \<and> k \<le> fuel
           \<and> run_rounds k c (players G) g (samples G) = Inr (players G', g', samples G')
           \<and> (\<forall>j. 1 \<le> j \<and> j < k \<longrightarrow>
                 (\<exists>psj gj poolj. run_rounds j c (players G) g (samples G) = Inr (psj, gj, poolj)
                    \<and> length poolj < bs))
           \<and> bs \<le> length (samples G')
           \<and> make_batch (take bs (samples G')) = Inr b
           \<and> pc G' = At_yield"
  using assms
proof (induction fuel arbitrary: G g)
  case 0
  then show ?case by simp
next
  case (Suc fuel)
  from Suc.prems obtain ps1 g1 pool1 where pa: "play_all c (players G) g (samples G) = Inr (ps1, g1, pool1)"
    by (auto split: sum.splits)
  let ?G1 = "G\<lparr>players := ps1, samples := pool1\<rparr>"
  show ?case
  proof (cases "bs \<le> length pool1")
    case True
    with Suc.prems pa have "emit bs ?G1 = Inr (b, G')" and g': "g' = g1"
      by (auto simp: Let_def split: sum.splits)
    then have mb: "make_batch (take bs pool1) = Inr b" and G': "G' = ?G1\<lparr>pc := At_yield\<rparr>"
      by (simp_all add: emit_Inr)
    have "run_rounds 1 c (players G) g (samples G) = Inr (players G', g', samples G')"
      using pa G' g' by simp
    with mb G' True show ?thesis by (intro exI [of _ 1]) simp
  next
    case False
    with Suc.prems pa have "rounds fuel c bs ?G1 g1 = Some (Inr (b, G', g'))"
      by (simp add: Let_def)
    from Suc.IH [OF this] obtain k where k: "1 \<le> k" "k \<le> fuel"
      and run: "run_rounds k c ps1 g1 pool1 = Inr (players G', g', samples G')"
      and least: "\<forall>j. 1 \<le> j \<and> j < k \<longrightarrow>
                 (\<exists>psj gj poolj. run_rounds j c ps1 g1 pool1 = Inr (psj, gj, poolj) \<and> length poolj < bs)"
      and rest: "bs \<le> length (samples G')" "make_batch (take bs (samples G')) = Inr b" "pc G' = At_yield"
      by auto
    have run': "run_rounds (Suc k) c (players G) g (samples G) = Inr (players G', g', samples G')"
      using run by (simp only: run_rounds_Suc [OF pa])
    have least': "\<exists>psj gj poolj. run_rounds j c (players G) g (samples G) = Inr (psj, gj, poolj)
                    \<and> length poolj < bs" if j: "1 \<le> j" "j < Suc k" for j
    proof (cases j)
      case 0
      with j show ?thesis by simp
    next
      case (Suc i)
      show ?thesis
      proof (cases "i = 0")
        case True
        with Suc pa False show ?thesis by simp
      next
        case nz: False
        with j Suc least have "\<exists>psj gj poolj. run_rounds i c ps1 g1 pool1 = Inr (psj, gj, poolj) \<and> length poolj < bs"
          by simp
        then show ?thesis unfolding Suc by (simp only: run_rounds_Suc [OF pa])
      qed
    qed
    from k run' least' rest show ?thesis by (intro exI [of _ "Suc k"]) simp
  qed
qed

lemma rounds_exact_backward:
  assumes "1 \<le> k" and "k \<le> fuel"
      and "run_rounds k c (players G) g (samples G) = Inr (ps', g', pool')"
      and "\<forall>j. 1 \<le> j \<and> j < k \<longrightarrow>
                 (\<exists>psj gj poolj. run_rounds j c (players G) g (samples G) = Inr (psj, gj, poolj)
                    \<and> length poolj < bs)"
      and "bs \<le> length pool'"
      and "make_batch (take bs pool') = Inr b"
  shows "rounds fuel c bs G g = Some (Inr (b, G\<lparr>players := ps', samples := pool', pc := At_yield\<rparr>, g'))"
  using assms
proof (induction fuel arbitrary: k G g)
  case 0
  then show ?case by simp
next
  case (Suc fuel)
  from Suc.prems(1) obtain k' where k: "k = Suc k'" by (cases k) auto
  from Suc.prems(3) obtain ps1 g1 pool1 where pa: "play_all c (players G) g (samples G) = Inr (ps1, g1, pool1)"
    unfolding k by (auto split: sum.splits)
  let ?G1 = "G\<lparr>players := ps1, samples := pool1\<rparr>"
  have run: "run_rounds k' c ps1 g1 pool1 = Inr (ps', g', pool')"
    using Suc.prems(3) unfolding k by (simp only: run_rounds_Suc [OF pa])
  show ?case
  proof (cases "k' = 0")
    case True
    with run have "ps' = ps1" "g' = g1" "pool' = pool1" by simp_all
    with pa Suc.prems(5,6) show ?thesis by (simp add: Let_def emit_def)
  next
    case False
    then have 1: "1 \<le> k'" by simp
    from Suc.prems(2) k have 2: "k' \<le> fuel" by simp
    from Suc.prems(4) [rule_format, of 1] False k pa have short: "length pool1 < bs" by simp
    have least: "\<forall>j. 1 \<le> j \<and> j < k' \<longrightarrow>
                 (\<exists>psj gj poolj. run_rounds j c (players ?G1) g1 (samples ?G1) = Inr (psj, gj, poolj)
                    \<and> length poolj < bs)"
    proof (intro allI impI)
      fix j assume j: "1 \<le> j \<and> j < k'"
      with k have "1 \<le> Suc j \<and> Suc j < k" by simp
      from Suc.prems(4) [rule_format, OF this]
      show "\<exists>psj gj poolj. run_rounds j c (players ?G1) g1 (samples ?G1) = Inr (psj, gj, poolj)
                    \<and> length poolj < bs"
        by (simp only: run_rounds_Suc [OF pa]) simp
    qed
    have run1: "run_rounds k' c (players ?G1) g1 (samples ?G1) = Inr (ps', g', pool')"
      using run by simp
    from Suc.IH [OF 1 2 run1 least Suc.prems(5,6)]
    have "rounds fuel c bs ?G1 g1 = Some (Inr (b, ?G1\<lparr>players := ps', samples := pool', pc := At_yield\<rparr>, g'))" .
    with pa short show ?thesis by (simp add: Let_def)
  qed
qed

lemma gen_eq:
  fixes G G' :: "('e, 'obs, 'act, 'r) gen"
  assumes "players G' = ps" "samples G' = pool" "pc G' = At_yield"
  shows "G' = G\<lparr>players := ps, samples := pool, pc := At_yield\<rparr>"
  using assms by (cases G, cases G') simp

lemmas world_simps = counting_world_def two_step_player_def

lemmas run_simps =
  counting_world_def Player_init_def play_def play_step_def flush_call_def memory_to_samples_def Let_def

section \<open>The claims\<close>

subsection \<open>C1: the flush of a forced truncation\<close>

text \<open>
  C1, as stated, fails. The claim says that a pass which exceeds the step budget
  (\<open>step_index > max_steps\<close>) while the environment reports \<open>done = False\<close> flushes
  as a terminal flush: return seed \<open>0\<close>, the whole memory consumed, no bootstrap
  transition kept. Line 63 passes \<^verbatim>\<open>is_done=done\<close>, so the flush is the
  non-terminal one. On the player two steps into its episode with \<open>max_steps = 2\<close>,
  in the world that is never done, the third pass flushes with the argument \<open>False\<close>,
  produces two samples seeded with the value estimate \<open>25\<close> of the third transition and
  keeps that transition; the terminal flush of the same memory would have produced the
  three samples of the last conjunct and left the memory empty.
\<close>

theorem truncation_flush_counterexample:
  "snd (snd (fst (env_step (counting_world 0) (env (two_step_player 5 2)) 0))) = False
   \<and> step_index (two_step_player 5 2) + 1 > max_steps (two_step_player 5 2)
   \<and> play_step (counting_world 0) (two_step_player 5 2) 2 =
       Inr \<lparr>stop = True, flushes = [False],
            produced = [(1, 1, 52, 37), (0, 0, 105, 100)],
            player = \<lparr>env = 0, reward_steps = 5, gamma = 2, state = 0,
                      memory = [(2, 0, 3, 25)], episode_reward = 0, step_index = 0,
                      max_steps = 2, player_index = 0\<rparr>,
            rng = 3\<rparr>
   \<and> memory_to_samples ((two_step_player 5 2)\<lparr>memory := memory (two_step_player 5 2) @ [(2, 0, 3, 25)]\<rparr>) True =
       Inr ([(2, 0, 3, - 22), (1, 1, 8, - 7), (0, 0, 17, 12)], (two_step_player 5 2)\<lparr>memory := []\<rparr>)"
  by (simp add: world_simps play_step_def flush_call_def memory_to_samples_def Let_def)

text \<open>
  C1, amended: when a pass exceeds the step budget while the environment reports
  \<open>done = False\<close>, its flush is the non-terminal one. The return seed is the value
  estimate of the transition recorded in that pass, the transitions recorded before it
  are all turned into samples, and that last transition stays behind as the only entry of
  the memory.
\<close>

theorem truncation_flush_bootstraps:
  assumes "predict_on_batch c (state p) = (probs, val)"
      and "random_choice c g probs = (action, g')"
      and "env_step c (env p) action = ((new_state, reward, False), e')"
      and "step_index p + 1 > max_steps p"
  shows "\<exists>r. play_step c p g = Inr r
           \<and> flushes r = [False]
           \<and> produced r = samples_loop (gamma p) val (rev (memory p)) []
           \<and> length (produced r) = length (memory p)
           \<and> memory (player r) = [(state p, action, reward, val)]"
proof -
  from play_step_result [OF assms(1-3)] assms(4)
  obtain r where r: "play_step c p g = Inr r" "flushes r = [False]"
      "produced r = samples_loop (gamma p) val (rev (memory p)) []"
      "memory (player r) = [(state p, action, reward, val)]"
    by auto
  from r(3) have "length (produced r) = length (memory p)"
    by (simp add: length_samples_loop)
  with r show ?thesis by blast
qed

text \<open>
  C1, amended, at the player two steps into its episode with \<open>max_steps = 2\<close>.
\<close>

theorem truncation_flush_bootstraps_witness:
  "predict_on_batch (counting_world 0) (state (two_step_player 5 2)) = ((), 25)
   \<and> random_choice (counting_world 0) 2 () = (0, 3)
   \<and> env_step (counting_world 0) (env (two_step_player 5 2)) 0 = ((3, 3, False), 3)
   \<and> step_index (two_step_player 5 2) + 1 > max_steps (two_step_player 5 2)
   \<and> (\<exists>r. play_step (counting_world 0) (two_step_player 5 2) 2 = Inr r
          \<and> flushes r = [False]
          \<and> produced r = [(1, 1, 52, 37), (0, 0, 105, 100)]
          \<and> length (produced r) = 2
          \<and> memory (player r) = [(2, 0, 3, 25)])"
proof -
  have h: "predict_on_batch (counting_world 0) (state (two_step_player 5 2)) = ((), 25)"
    "random_choice (counting_world 0) 2 () = (0, 3)"
    "env_step (counting_world 0) (env (two_step_player 5 2)) 0 = ((3, 3, False), 3)"
    "step_index (two_step_player 5 2) + 1 > max_steps (two_step_player 5 2)"
    by (simp_all add: world_simps)
  from truncation_flush_bootstraps [OF h] h show ?thesis
    by (simp add: two_step_player_def eval_nat_numeral)
qed

subsection \<open>C2: the backward recurrence of the returns\<close>

text \<open>
  C2. A flush of a non-empty memory succeeds. Write \<open>n\<close> for the number of consumed
  transitions; the sample of the transition at chronological position \<open>t\<close> stands at
  position \<open>n - 1 - t\<close> of the result and carries its state and action. Its return is
  \<open>R\<^sub>t = reward\<^sub>t + R\<^sub>t\<^sub>+\<^sub>1 * gamma\<close>, the product as line 86 computes it, where
  \<open>R\<^sub>n\<close> is the seed: \<open>0\<close> for a terminal flush, otherwise the value estimate of the
  last transition, which is not consumed and is the memory afterwards. Its advantage is
  \<open>R\<^sub>t\<close> minus the value estimate recorded at \<open>t\<close>. No law of arithmetic is used, so
  the statement reads the same at every number representation. Where multiplication by
  \<open>gamma\<close> commutes, as it does for the floating-point numbers of the program, the return
  is \<open>reward\<^sub>t + gamma * R\<^sub>t\<^sub>+\<^sub>1\<close>, the form of the specification.
\<close>

theorem flush_recurrence:
  fixes p :: "('e, 'obs, 'act, 'r::{zero,plus,minus,times}) Player"
  assumes "memory p \<noteq> []"
  shows "\<exists>smp. memory_to_samples p is_done =
                 Inr (smp, p\<lparr>memory := (if is_done then [] else [last (memory p)])\<rparr>)
           \<and> length smp = length (consumed p is_done)
           \<and> (\<forall>t < length (consumed p is_done).
                 case consumed p is_done ! t of (s, a, reward, val) \<Rightarrow>
                 case smp ! (length (consumed p is_done) - 1 - t) of (s', a', R, advantage) \<Rightarrow>
                   s' = s \<and> a' = a
                 \<and> R = reward +
                         (if Suc t < length (consumed p is_done)
                          then sample_return (smp ! (length (consumed p is_done) - 1 - Suc t))
                          else seed p is_done) * gamma p
                 \<and> ((\<forall>x. x * gamma p = gamma p * x) \<longrightarrow>
                      R = reward + gamma p *
                         (if Suc t < length (consumed p is_done)
                          then sample_return (smp ! (length (consumed p is_done) - 1 - Suc t))
                          else seed p is_done))
                 \<and> advantage = R - val)"
proof -
  let ?body = "consumed p is_done"
  let ?n = "length ?body"
  let ?smp = "samples_loop (gamma p) (seed p is_done) (rev ?body) []"
  have eq: "memory_to_samples p is_done =
              Inr (?smp, p\<lparr>memory := (if is_done then [] else [last (memory p)])\<rparr>)"
    using assms by (simp add: memory_to_samples_Inr)
  have len: "length ?smp = ?n" by (simp add: length_samples_loop)
  have rec: "case ?body ! t of (s, a, reward, val) \<Rightarrow>
             case ?smp ! (?n - 1 - t) of (s', a', R, advantage) \<Rightarrow>
               s' = s \<and> a' = a
             \<and> R = reward +
                     (if Suc t < ?n then sample_return (?smp ! (?n - 1 - Suc t)) else seed p is_done)
                       * gamma p
             \<and> ((\<forall>x. x * gamma p = gamma p * x) \<longrightarrow>
                  R = reward + gamma p *
                     (if Suc t < ?n then sample_return (?smp ! (?n - 1 - Suc t)) else seed p is_done))
             \<and> advantage = R - val" if t: "t < ?n" for t
  proof -
    let ?i = "?n - 1 - t"
    from t have i: "?i < length (rev ?body)" by simp
    from t have nth: "rev ?body ! ?i = ?body ! t" by (simp add: rev_nth)
    obtain s a rw v where b: "?body ! t = (s, a, rw, v)" by (cases "?body ! t") auto
    have zero: "?i = 0 \<longleftrightarrow> \<not> Suc t < ?n" using t by arith
    have prev: "?i - 1 = ?n - 1 - Suc t" by simp
    show ?thesis
      using samples_loop_nth [OF i, of "gamma p" "seed p is_done"]
      unfolding nth b prev
      by (simp add: Let_def zero)
  qed
  show ?thesis using eq len rec by blast
qed

text \<open>
  C2 on the scenario segment, flushed as non-terminal: the seed is \<open>0.1\<close>.
\<close>

theorem flush_recurrence_witness:
  "memory scenario_player \<noteq> []
   \<and> (\<forall>x. x * gamma scenario_player = gamma scenario_player * x)
   \<and> (\<exists>smp. memory_to_samples scenario_player False
                = Inr (smp, scenario_player\<lparr>memory := [(2, 2, 3, 0.1)]\<rparr>)
          \<and> length smp = 2
          \<and> sample_return (smp ! 0) = 2 + 0.1 * 0.5
          \<and> sample_return (smp ! 1) = 1 + sample_return (smp ! 0) * 0.5
          \<and> sample_return (smp ! 0) = 2 + 0.5 * 0.1
          \<and> sample_return (smp ! 1) = 1 + 0.5 * sample_return (smp ! 0)
          \<and> snd (snd (snd (smp ! 0))) = sample_return (smp ! 0) - 0.3
          \<and> snd (snd (snd (smp ! 1))) = sample_return (smp ! 1) - 0.5)"
proof -
  have ne: "memory scenario_player \<noteq> []" by (simp add: scenario_player_def)
  have cm: "\<forall>x. x * gamma scenario_player = gamma scenario_player * x"
    by (simp add: mult.commute)
  from flush_recurrence [OF ne, of False] obtain smp where
    1: "memory_to_samples scenario_player False
          = Inr (smp, scenario_player\<lparr>memory := [last (memory scenario_player)]\<rparr>)"
    and 2: "length smp = length (consumed scenario_player False)"
    and 3: "\<forall>t < length (consumed scenario_player False).
                 case consumed scenario_player False ! t of (s, a, reward, val) \<Rightarrow>
                 case smp ! (length (consumed scenario_player False) - 1 - t) of (s', a', R, advantage) \<Rightarrow>
                   s' = s \<and> a' = a
                 \<and> R = reward +
                         (if Suc t < length (consumed scenario_player False)
                          then sample_return (smp ! (length (consumed scenario_player False) - 1 - Suc t))
                          else seed scenario_player False) * gamma scenario_player
                 \<and> ((\<forall>x. x * gamma scenario_player = gamma scenario_player * x) \<longrightarrow>
                      R = reward + gamma scenario_player *
                         (if Suc t < length (consumed scenario_player False)
                          then sample_return (smp ! (length (consumed scenario_player False) - 1 - Suc t))
                          else seed scenario_player False))
                 \<and> advantage = R - val"
    by (elim exE conjE) simp
  have c: "consumed scenario_player False = [(0, 0, 1, 0.5), (1, 1, 2, 0.3)]"
    and s: "seed scenario_player False = 0.1" and g: "gamma scenario_player = 0.5"
    by (simp_all add: consumed_def seed_def scenario_player_def)
  from 3 [rule_format, of 0] 3 [rule_format, of 1] cm
  have "sample_return (smp ! 0) = 2 + 0.1 * 0.5"
       "sample_return (smp ! 1) = 1 + sample_return (smp ! 0) * 0.5"
       "sample_return (smp ! 0) = 2 + 0.5 * 0.1"
       "sample_return (smp ! 1) = 1 + 0.5 * sample_return (smp ! 0)"
       "snd (snd (snd (smp ! 0))) = sample_return (smp ! 0) - 0.3"
       "snd (snd (snd (smp ! 1))) = sample_return (smp ! 1) - 0.5"
    unfolding c s g by (auto simp: sample_return_def split: prod.splits)
  with 1 2 ne cm show ?thesis unfolding c by (auto simp: scenario_player_def)
qed

subsection \<open>C3: how many samples a flush returns\<close>

text \<open>
  C3. For a memory of length \<open>L \<ge> 1\<close>, the terminal flush returns \<open>L\<close> samples and
  leaves the memory empty; the non-terminal flush returns \<open>L - 1\<close> samples and leaves the
  one-element memory holding the last transition; for \<open>L = 1\<close> the non-terminal flush
  returns no sample and the memory is unchanged.
\<close>

theorem flush_sizes:
  assumes "memory p \<noteq> []"
  shows "(\<exists>smp. memory_to_samples p True = Inr (smp, p\<lparr>memory := []\<rparr>)
             \<and> length smp = length (memory p))
       \<and> (\<exists>smp. memory_to_samples p False = Inr (smp, p\<lparr>memory := [last (memory p)]\<rparr>)
             \<and> length smp = length (memory p) - 1)
       \<and> (length (memory p) = 1 \<longrightarrow> memory_to_samples p False = Inr ([], p))"
proof -
  have one: "memory_to_samples p False = Inr ([], p)"
    if "length (memory p) = 1"
  proof -
    from that obtain t where "memory p = [t]" by (cases "memory p") auto
    then show ?thesis by (simp add: memory_to_samples_def Let_def)
  qed
  show ?thesis
    using assms one
    by (simp add: memory_to_samples_terminal memory_to_samples_bootstrap length_samples_loop)
qed

text \<open>
  C3 on the scenario segment (\<open>L = 3\<close>) and on its last transition alone (\<open>L = 1\<close>).
\<close>

theorem flush_sizes_witness:
  "memory scenario_player \<noteq> []
   \<and> (\<exists>smp. memory_to_samples scenario_player True = Inr (smp, scenario_player\<lparr>memory := []\<rparr>)
          \<and> length smp = 3)
   \<and> (\<exists>smp. memory_to_samples scenario_player False
                = Inr (smp, scenario_player\<lparr>memory := [(2, 2, 3, 0.1)]\<rparr>)
          \<and> length smp = 2)
   \<and> length (memory (scenario_player\<lparr>memory := [(2, 2, 3, 0.1)]\<rparr>)) = 1
   \<and> memory_to_samples (scenario_player\<lparr>memory := [(2, 2, 3, 0.1)]\<rparr>) False
        = Inr ([], scenario_player\<lparr>memory := [(2, 2, 3, 0.1)]\<rparr>)"
  using flush_sizes [of scenario_player]
        flush_sizes [of "scenario_player\<lparr>memory := [(2, 2, 3, 0.1)]\<rparr>"]
  by (simp add: scenario_player_def eval_nat_numeral)

subsection \<open>C4: the order of the samples\<close>

text \<open>
  C4. The samples of a flush stand in reverse chronological order: position by position
  they match the reversed list of the consumed transitions, each sample carrying the
  state and the action of its transition and, as advantage, its return minus the value
  estimate of that transition. So the first sample comes from the most recent consumed
  transition and the last one from the oldest.
\<close>

theorem flush_order:
  assumes "memory_to_samples p is_done = Inr (smp, p')"
  shows "list_all2 (\<lambda>(s', a', R, advantage) (s, a, reward, val).
                       s' = s \<and> a' = a \<and> advantage = R - val)
           smp (rev (consumed p is_done))"
proof -
  have ok: "is_done \<or> memory p \<noteq> []"
    using assms memory_to_samples_empty [of p] by (cases is_done) auto
  let ?ts = "rev (consumed p is_done)"
  have smp: "smp = samples_loop (gamma p) (seed p is_done) ?ts []"
    using assms memory_to_samples_Inr [OF ok] by simp
  show ?thesis
    unfolding smp list_all2_conv_all_nth
  proof (intro conjI allI impI)
    show "length (samples_loop (gamma p) (seed p is_done) ?ts []) = length ?ts"
      by (simp add: length_samples_loop)
  next
    fix i assume "i < length (samples_loop (gamma p) (seed p is_done) ?ts [])"
    then have i: "i < length ?ts" by (simp add: length_samples_loop)
    show "(case samples_loop (gamma p) (seed p is_done) ?ts [] ! i of
             (s', a', R, advantage) \<Rightarrow> \<lambda>(s, a, reward, val). s' = s \<and> a' = a \<and> advantage = R - val)
            (?ts ! i)"
      using samples_loop_nth [OF i, of "gamma p" "seed p is_done"]
      by (cases "?ts ! i") (simp add: Let_def)
  qed
qed

text \<open>
  C4 on the scenario segment, flushed as terminal: the samples of the specification's
  scenario.
\<close>

theorem flush_order_witness:
  "memory_to_samples scenario_player True
     = Inr ([(2, 2, 3, 2.9), (1, 1, 3.5, 3.2), (0, 0, 2.75, 2.25)], scenario_player\<lparr>memory := []\<rparr>)
   \<and> list_all2 (\<lambda>(s', a', R, advantage) (s, a, reward, val).
                    s' = s \<and> a' = a \<and> advantage = R - val)
        [(2, 2, 3, 2.9), (1, 1, 3.5, 3.2), (0, 0, 2.75, 2.25)]
        (rev (consumed scenario_player True))"
proof -
  have h: "memory_to_samples scenario_player True
     = Inr ([(2, 2, 3, 2.9), (1, 1, 3.5, 3.2), (0, 0, 2.75, 2.25)], scenario_player\<lparr>memory := []\<rparr>)"
    by (simp add: memory_to_samples_def scenario_player_def)
  from flush_order [OF h] h show ?thesis by simp
qed

subsection \<open>C5: batches are the head of the pool\<close>

text \<open>
  C5. The pool the generator works on when it is asked for a batch is its pool, without
  the batch yielded before when it is resumed at the \<^verbatim>\<open>yield\<close> (line 103 removes it;
  what is left over is carried on). The generator yields the batch \<open>b\<close> and is left
  in the state \<open>G'\<close> exactly when, for some \<open>k\<close> within the fuel, \<open>k\<close> rounds take
  that pool and the players to the pool and the players of \<open>G'\<close>, the pool has fewer than
  \<open>batch_size\<close> samples after every smaller number of rounds (a generator not yet
  started runs one round before it looks at the pool), it has at least \<open>batch_size\<close>
  after \<open>k\<close>, and \<open>b\<close> is made of its first \<open>batch_size\<close> entries. So a batch has
  exactly \<open>batch_size\<close> samples, in pool order, and it is yielded as soon as the pool is
  long enough. A round advances the players in list order, each by \<^verbatim>\<open>play(1)\<close> with
  the random source handed on from one player to the next, and appends their samples to
  the pool in that order, each player's samples as \<^verbatim>\<open>play\<close> returned them.
\<close>

theorem batches_fifo:
  fixes c :: "('e, 'g, 'obs, 'act, 'p, 'r::{zero,plus,times,minus}) collab"
  shows "(gen_next fuel c batch_size G g = Some (Inr (b, G', g')) \<longleftrightarrow>
          (\<exists>k. (pc G = Not_started \<longrightarrow> 1 \<le> k) \<and> k \<le> fuel
             \<and> run_rounds k c (players G) g
                  (case pc G of Not_started \<Rightarrow> samples G | At_yield \<Rightarrow> drop batch_size (samples G))
                = Inr (players G', g', samples G')
             \<and> (\<forall>j. (pc G = Not_started \<longrightarrow> 1 \<le> j) \<and> j < k \<longrightarrow>
                   (\<exists>psj gj poolj.
                      run_rounds j c (players G) g
                        (case pc G of Not_started \<Rightarrow> samples G | At_yield \<Rightarrow> drop batch_size (samples G))
                      = Inr (psj, gj, poolj)
                    \<and> length poolj < batch_size))
             \<and> batch_size \<le> length (samples G')
             \<and> make_batch (take batch_size (samples G')) = Inr b
             \<and> pc G' = At_yield))
       \<and> (gen_next fuel c batch_size G g = Some (Inr (b, G', g')) \<longrightarrow>
             length (take batch_size (samples G')) = batch_size
           \<and> make_batch (take batch_size (samples G')) = Inr b
           \<and> length (fst (fst b)) = batch_size
           \<and> pc G' = At_yield
           \<and> (\<exists>k. run_rounds k c (players G) g
                  (case pc G of Not_started \<Rightarrow> samples G | At_yield \<Rightarrow> drop batch_size (samples G))
                = Inr (players G', g', samples G')))
       \<and> (\<forall>ps h pool ps' h' pool'. play_all c ps h pool = Inr (ps', h', pool') \<longrightarrow>
             (\<exists>outs hs. length outs = length ps \<and> length ps' = length ps \<and> length hs = length ps + 1
                \<and> hs ! 0 = h \<and> hs ! length ps = h'
                \<and> pool' = pool @ concat outs
                \<and> (\<forall>i < length ps. play c 1 (ps ! i) (hs ! i) = Inr (outs ! i, ps' ! i, hs ! Suc i))))"
proof (intro conjI)
  let ?pool0 = "case pc G of Not_started \<Rightarrow> samples G | At_yield \<Rightarrow> drop batch_size (samples G)"
  let ?yield = "gen_next fuel c batch_size G g = Some (Inr (b, G', g'))"
  let ?least = "\<lambda>k. \<forall>j. (pc G = Not_started \<longrightarrow> 1 \<le> j) \<and> j < k \<longrightarrow>
                   (\<exists>psj gj poolj. run_rounds j c (players G) g ?pool0 = Inr (psj, gj, poolj)
                    \<and> length poolj < batch_size)"
  let ?rhs = "\<exists>k. (pc G = Not_started \<longrightarrow> 1 \<le> k) \<and> k \<le> fuel
             \<and> run_rounds k c (players G) g ?pool0 = Inr (players G', g', samples G')
             \<and> ?least k
             \<and> batch_size \<le> length (samples G')
             \<and> make_batch (take batch_size (samples G')) = Inr b
             \<and> pc G' = At_yield"
  show "?yield \<longleftrightarrow> ?rhs"
  proof (cases "pc G")
    case Not_started
    have eq: "gen_next fuel c batch_size G g = rounds fuel c batch_size G g"
      using Not_started by (simp add: gen_next_def)
    show ?thesis
    proof
      assume ?yield
      with eq have "rounds fuel c batch_size G g = Some (Inr (b, G', g'))" by simp
      from rounds_exact_forward [OF this] show ?rhs using Not_started by simp
    next
      assume ?rhs
      then obtain k where k: "1 \<le> k" "k \<le> fuel"
        and run: "run_rounds k c (players G) g (samples G) = Inr (players G', g', samples G')"
        and least: "\<forall>j. 1 \<le> j \<and> j < k \<longrightarrow>
                 (\<exists>psj gj poolj. run_rounds j c (players G) g (samples G) = Inr (psj, gj, poolj)
                    \<and> length poolj < batch_size)"
        and rest: "batch_size \<le> length (samples G')" "make_batch (take batch_size (samples G')) = Inr b"
        and pc: "pc G' = At_yield"
        using Not_started by auto
      from rounds_exact_backward [OF k run least rest]
      have "rounds fuel c batch_size G g
              = Some (Inr (b, G\<lparr>players := players G', samples := samples G', pc := At_yield\<rparr>, g'))" .
      moreover have "G' = G\<lparr>players := players G', samples := samples G', pc := At_yield\<rparr>"
        using pc by (intro gen_eq) simp_all
      ultimately show ?yield using eq by simp
    qed
  next
    case At_yield
    let ?G1 = "G\<lparr>samples := drop batch_size (samples G)\<rparr>"
    show ?thesis
    proof (cases "batch_size \<le> length (drop batch_size (samples G))")
      case True
      have eq: "gen_next fuel c batch_size G g =
                  (case emit batch_size ?G1 of Inl err \<Rightarrow> Some (Inl err)
                   | Inr (b, G'') \<Rightarrow> Some (Inr (b, G'', g)))"
        using At_yield True by (simp add: gen_next_def Let_def)
      show ?thesis
      proof
        assume ?yield
        with eq have "emit batch_size ?G1 = Inr (b, G')" and g': "g' = g"
          by (auto split: sum.splits)
        then have mb: "make_batch (take batch_size (samples ?G1)) = Inr b"
          and G': "G' = ?G1\<lparr>pc := At_yield\<rparr>"
          by (simp_all add: emit_Inr)
        show ?rhs using At_yield True mb G' g' by (intro exI [of _ 0]) simp
      next
        assume ?rhs
        then obtain k where k: "k \<le> fuel"
          and run: "run_rounds k c (players G) g (drop batch_size (samples G)) = Inr (players G', g', samples G')"
          and least: "\<forall>j. j < k \<longrightarrow>
                 (\<exists>psj gj poolj. run_rounds j c (players G) g (drop batch_size (samples G)) = Inr (psj, gj, poolj)
                    \<and> length poolj < batch_size)"
          and rest: "batch_size \<le> length (samples G')" "make_batch (take batch_size (samples G')) = Inr b"
          and pc: "pc G' = At_yield"
          using At_yield by auto
        have "k = 0"
        proof (rule ccontr)
          assume "k \<noteq> 0"
          then have "0 < k" by simp
          from least [rule_format, OF this] True show False by simp
        qed
        with run have f: "players G' = players G" "g' = g" "samples G' = drop batch_size (samples G)"
          by simp_all
        have "G' = ?G1\<lparr>players := players G, samples := drop batch_size (samples G), pc := At_yield\<rparr>"
          using f pc by (intro gen_eq) simp_all
        then have "G' = ?G1\<lparr>pc := At_yield\<rparr>" by simp
        with rest f eq show ?yield by (simp add: emit_def)
      qed
    next
      case False
      have eq: "gen_next fuel c batch_size G g = rounds fuel c batch_size ?G1 g"
        using At_yield False by (simp add: gen_next_def Let_def)
      show ?thesis
      proof
        assume ?yield
        with eq have "rounds fuel c batch_size ?G1 g = Some (Inr (b, G', g'))" by simp
        from rounds_exact_forward [OF this] obtain k where k: "1 \<le> k" "k \<le> fuel"
          and run: "run_rounds k c (players G) g (drop batch_size (samples G)) = Inr (players G', g', samples G')"
          and least: "\<forall>j. 1 \<le> j \<and> j < k \<longrightarrow>
                 (\<exists>psj gj poolj. run_rounds j c (players G) g (drop batch_size (samples G)) = Inr (psj, gj, poolj)
                    \<and> length poolj < batch_size)"
          and rest: "batch_size \<le> length (samples G')" "make_batch (take batch_size (samples G')) = Inr b"
             "pc G' = At_yield"
          by auto
        have least0: "\<exists>psj gj poolj. run_rounds j c (players G) g (drop batch_size (samples G)) = Inr (psj, gj, poolj)
                    \<and> length poolj < batch_size" if "j < k" for j
        proof (cases "j = 0")
          case True
          with False show ?thesis by simp
        next
          case nz: False
          with that least show ?thesis by simp
        qed
        from k run least0 rest show ?rhs using At_yield by (intro exI [of _ k]) simp
      next
        assume ?rhs
        then obtain k where k: "k \<le> fuel"
          and run: "run_rounds k c (players G) g (drop batch_size (samples G)) = Inr (players G', g', samples G')"
          and least: "\<forall>j. j < k \<longrightarrow>
                 (\<exists>psj gj poolj. run_rounds j c (players G) g (drop batch_size (samples G)) = Inr (psj, gj, poolj)
                    \<and> length poolj < batch_size)"
          and rest: "batch_size \<le> length (samples G')" "make_batch (take batch_size (samples G')) = Inr b"
          and pc: "pc G' = At_yield"
          using At_yield by auto
        have k1: "1 \<le> k"
        proof (rule ccontr)
          assume "\<not> 1 \<le> k"
          then have "k = 0" by simp
          with run have "samples G' = drop batch_size (samples G)" by simp
          with rest(1) False show False by simp
        qed
        have run1: "run_rounds k c (players ?G1) g (samples ?G1) = Inr (players G', g', samples G')"
          using run by simp
        have least1: "\<forall>j. 1 \<le> j \<and> j < k \<longrightarrow>
                 (\<exists>psj gj poolj. run_rounds j c (players ?G1) g (samples ?G1) = Inr (psj, gj, poolj)
                    \<and> length poolj < batch_size)"
          using least by simp
        from rounds_exact_backward [OF k1 k run1 least1 rest]
        have "rounds fuel c batch_size ?G1 g
              = Some (Inr (b, ?G1\<lparr>players := players G', samples := samples G', pc := At_yield\<rparr>, g'))" .
        moreover have "G' = ?G1\<lparr>players := players G', samples := samples G', pc := At_yield\<rparr>"
          using pc by (intro gen_eq) simp_all
        ultimately show ?yield using eq by simp
      qed
    qed
  qed
next
  show "gen_next fuel c batch_size G g = Some (Inr (b, G', g')) \<longrightarrow>
             length (take batch_size (samples G')) = batch_size
           \<and> make_batch (take batch_size (samples G')) = Inr b
           \<and> length (fst (fst b)) = batch_size
           \<and> pc G' = At_yield
           \<and> (\<exists>k. run_rounds k c (players G) g
                  (case pc G of Not_started \<Rightarrow> samples G | At_yield \<Rightarrow> drop batch_size (samples G))
                = Inr (players G', g', samples G'))"
  proof
    assume a: "gen_next fuel c batch_size G g = Some (Inr (b, G', g'))"
    from gen_next_emitted [OF a] have
      1: "batch_size \<le> length (samples G')" and 2: "make_batch (take batch_size (samples G')) = Inr b"
      and 3: "pc G' = At_yield"
      and 4: "\<exists>k. run_rounds k c (players G) g
                  (case pc G of Not_started \<Rightarrow> samples G | At_yield \<Rightarrow> drop batch_size (samples G))
                = Inr (players G', g', samples G')"
      by blast+
    from 1 have 5: "length (take batch_size (samples G')) = batch_size" by simp
    from make_batch_Inr [OF 2] 5 have 6: "length (fst (fst b)) = batch_size" by simp
    from 5 2 6 3 4 show "length (take batch_size (samples G')) = batch_size
           \<and> make_batch (take batch_size (samples G')) = Inr b
           \<and> length (fst (fst b)) = batch_size
           \<and> pc G' = At_yield
           \<and> (\<exists>k. run_rounds k c (players G) g
                  (case pc G of Not_started \<Rightarrow> samples G | At_yield \<Rightarrow> drop batch_size (samples G))
                = Inr (players G', g', samples G'))"
      by (intro conjI)
  qed
next
  show "\<forall>ps h pool ps' h' pool'. play_all c ps h pool = Inr (ps', h', pool') \<longrightarrow>
             (\<exists>outs hs. length outs = length ps \<and> length ps' = length ps \<and> length hs = length ps + 1
                \<and> hs ! 0 = h \<and> hs ! length ps = h'
                \<and> pool' = pool @ concat outs
                \<and> (\<forall>i < length ps. play c 1 (ps ! i) (hs ! i) = Inr (outs ! i, ps' ! i, hs ! Suc i)))"
    by (intro allI impI) (rule play_all_order)
qed

text \<open>
  C5 on two players whose episodes last three steps, \<open>batch_size = 4\<close>. The first
  batch comes after three rounds, with six samples in the pool. Resumed, the generator
  removes the four samples of that batch; the two left over are fewer than
  \<open>batch_size\<close> and stay at the head of the pool through three more rounds, after
  which the second batch is yielded: the two and the next two.
\<close>

theorem batches_fifo_witness:
  "gen_next (Suc (Suc (Suc 0))) (counting_world 3) 4 (generate_batches two_players) 0
     = Some (Inr ((([0, 2, 1, 0], [1, 0, 0, 0], [26, - 22, - 7, 12]), ([31, 3, 8, 17], [31, 3, 8, 17])),
                 after_three_rounds, 6))
   \<and> length (take 4 (samples after_three_rounds)) = 4
   \<and> make_batch (take 4 (samples after_three_rounds))
        = Inr (([0, 2, 1, 0], [1, 0, 0, 0], [26, - 22, - 7, 12]), ([31, 3, 8, 17], [31, 3, 8, 17]))
   \<and> pc after_three_rounds = At_yield
   \<and> length (drop 4 (samples after_three_rounds)) < 4
   \<and> run_rounds (Suc (Suc (Suc 0))) (counting_world 3) (players after_three_rounds) 6
        (drop 4 (samples after_three_rounds))
        = Inr (players after_six_rounds, 12, samples after_six_rounds)
   \<and> take 2 (samples after_six_rounds) = drop 4 (samples after_three_rounds)
   \<and> gen_next (Suc (Suc (Suc 0))) (counting_world 3) 4 after_three_rounds 6
        = Some (Inr ((([2, 1, 0, 2], [1, 1, 1, 0], [- 22, - 7, 26, - 22]), ([3, 8, 31, 3], [3, 8, 31, 3])),
                    after_six_rounds, 12))"
proof -
  let ?W = "counting_world 3"
  let ?B1 = "(([0, 2, 1, 0], [1, 0, 0, 0], [26, - 22, - 7, 12]), ([31, 3, 8, 17], [31, 3, 8, 17]))
              :: (nat, nat, int) batch"
  let ?B2 = "(([2, 1, 0, 2], [1, 1, 1, 0], [- 22, - 7, 26, - 22]), ([3, 8, 31, 3], [3, 8, 31, 3]))
              :: (nat, nat, int) batch"
  let ?pool0 = "drop 4 (samples after_three_rounds)"
  have first: "gen_next (Suc (Suc (Suc 0))) ?W 4 (generate_batches two_players) 0
                 = Some (Inr (?B1, after_three_rounds, 6))"
    by (simp add: gen_next_def generate_batches_def two_players_def after_three_rounds_def
          emit_def make_batch_def run_simps)
  from batches_fifo [of "Suc (Suc (Suc 0))" ?W 4 "generate_batches two_players" 0 ?B1 after_three_rounds 6,
        THEN conjunct2, THEN conjunct1] first
  have fwd: "length (take 4 (samples after_three_rounds)) = 4"
    "make_batch (take 4 (samples after_three_rounds)) = Inr ?B1"
    "pc after_three_rounds = At_yield"
    by simp_all
  have r0: "run_rounds 0 ?W (players after_three_rounds) 6 ?pool0
              = Inr (players after_three_rounds, 6, [(2, 1, 3, - 22), (1, 1, 8, - 7)])"
    by (simp add: after_three_rounds_def)
  have r1: "\<exists>ps h. run_rounds (Suc 0) ?W (players after_three_rounds) 6 ?pool0
              = Inr (ps, h, [(2, 1, 3, - 22), (1, 1, 8, - 7)])"
    by (simp add: after_three_rounds_def run_simps)
  have r2: "\<exists>ps h. run_rounds (Suc (Suc 0)) ?W (players after_three_rounds) 6 ?pool0
              = Inr (ps, h, [(2, 1, 3, - 22), (1, 1, 8, - 7), (0, 1, 31, 26)])"
    by (simp add: after_three_rounds_def run_simps)
  have r3: "run_rounds (Suc (Suc (Suc 0))) ?W (players after_three_rounds) 6 ?pool0
              = Inr (players after_six_rounds, 12, samples after_six_rounds)"
    by (simp add: after_three_rounds_def after_six_rounds_def run_simps)
  have least: "\<exists>psj gj poolj. run_rounds j ?W (players after_three_rounds) 6 ?pool0 = Inr (psj, gj, poolj)
                 \<and> length poolj < 4" if "j < Suc (Suc (Suc 0))" for j
  proof -
    from that consider "j = 0" | "j = Suc 0" | "j = Suc (Suc 0)" by (auto simp: less_Suc_eq)
    then show ?thesis
    proof cases
      case 1
      with r0 show ?thesis by simp
    next
      case 2
      with r1 show ?thesis by auto
    next
      case 3
      with r2 show ?thesis by auto
    qed
  qed
  have mb: "make_batch (take 4 (samples after_six_rounds)) = Inr ?B2"
    by (simp add: after_six_rounds_def make_batch_def Let_def)
  have rhs: "\<exists>k. (pc after_three_rounds = Not_started \<longrightarrow> 1 \<le> k) \<and> k \<le> Suc (Suc (Suc 0))
             \<and> run_rounds k ?W (players after_three_rounds) 6
                  (case pc after_three_rounds of Not_started \<Rightarrow> samples after_three_rounds
                   | At_yield \<Rightarrow> drop 4 (samples after_three_rounds))
                = Inr (players after_six_rounds, 12, samples after_six_rounds)
             \<and> (\<forall>j. (pc after_three_rounds = Not_started \<longrightarrow> 1 \<le> j) \<and> j < k \<longrightarrow>
                   (\<exists>psj gj poolj.
                      run_rounds j ?W (players after_three_rounds) 6
                        (case pc after_three_rounds of Not_started \<Rightarrow> samples after_three_rounds
                         | At_yield \<Rightarrow> drop 4 (samples after_three_rounds))
                      = Inr (psj, gj, poolj)
                    \<and> length poolj < 4))
             \<and> 4 \<le> length (samples after_six_rounds)
             \<and> make_batch (take 4 (samples after_six_rounds)) = Inr ?B2
             \<and> pc after_six_rounds = At_yield"
  proof (intro exI [of _ "Suc (Suc (Suc 0))"] conjI allI impI)
    show "run_rounds (Suc (Suc (Suc 0))) ?W (players after_three_rounds) 6
                  (case pc after_three_rounds of Not_started \<Rightarrow> samples after_three_rounds
                   | At_yield \<Rightarrow> drop 4 (samples after_three_rounds))
                = Inr (players after_six_rounds, 12, samples after_six_rounds)"
      using r3 fwd(3) by simp
  next
    fix j assume "(pc after_three_rounds = Not_started \<longrightarrow> 1 \<le> j) \<and> j < Suc (Suc (Suc 0))"
    then have "j < Suc (Suc (Suc 0))" by simp
    from least [OF this] show "\<exists>psj gj poolj.
                      run_rounds j ?W (players after_three_rounds) 6
                        (case pc after_three_rounds of Not_started \<Rightarrow> samples after_three_rounds
                         | At_yield \<Rightarrow> drop 4 (samples after_three_rounds))
                      = Inr (psj, gj, poolj)
                    \<and> length poolj < 4"
      using fwd(3) by simp
  qed (simp_all add: fwd(3) mb, simp_all add: after_six_rounds_def)
  from batches_fifo [of "Suc (Suc (Suc 0))" ?W 4 after_three_rounds 6 ?B2 after_six_rounds 12,
        THEN conjunct1, THEN iffD2, OF rhs]
  have second: "gen_next (Suc (Suc (Suc 0))) ?W 4 after_three_rounds 6
                  = Some (Inr (?B2, after_six_rounds, 12))" .
  have short: "length ?pool0 < 4" "take 2 (samples after_six_rounds) = ?pool0"
    by (simp_all add: after_three_rounds_def after_six_rounds_def)
  from first fwd short r3 second show ?thesis by (intro conjI)
qed

subsection \<open>C6: the shape of a batch\<close>

text \<open>
  C6. A yielded batch is the pair of the triple \<open>(states, actions, advantages)\<close> and
  the pair \<open>(returns, returns)\<close>, the same list twice. The four lists have length
  \<open>batch_size\<close>, and at every index they hold the four fields of the sample at that
  index of the pool.
\<close>

theorem batch_structure:
  assumes "gen_next fuel c batch_size G g = Some (Inr (b, G', g'))"
  shows "\<exists>states actions advantages returns.
           b = ((states, actions, advantages), (returns, returns))
         \<and> length states = batch_size \<and> length actions = batch_size
         \<and> length advantages = batch_size \<and> length returns = batch_size
         \<and> (\<forall>i < batch_size.
               (states ! i, actions ! i, returns ! i, advantages ! i) = samples G' ! i)"
proof -
  let ?chunk = "take batch_size (samples G')"
  from gen_next_emitted [OF assms] have
    1: "batch_size \<le> length (samples G')" and 2: "make_batch ?chunk = Inr b"
    by blast+
  from 1 have len: "length ?chunk = batch_size" by simp
  let ?states = "map (\<lambda>(s, a, R, adv). s) ?chunk"
  let ?actions = "map (\<lambda>(s, a, R, adv). a) ?chunk"
  let ?advantages = "map (\<lambda>(s, a, R, adv). adv) ?chunk"
  let ?returns = "map (\<lambda>(s, a, R, adv). R) ?chunk"
  from make_batch_Inr [OF 2] have b: "b = ((?states, ?actions, ?advantages), (?returns, ?returns))"
    by simp
  have nth: "(?states ! i, ?actions ! i, ?returns ! i, ?advantages ! i) = samples G' ! i"
    if "i < batch_size" for i
  proof -
    from that 1 have "i < length ?chunk" and "?chunk ! i = samples G' ! i" by simp_all
    then show ?thesis by (cases "samples G' ! i") (simp add: split_beta)
  qed
  show ?thesis
    using b len nth by (intro exI [of _ ?states] exI [of _ ?actions] exI [of _ ?advantages] exI [of _ ?returns]) simp
qed

text \<open>
  C6 on the generator suspended after three rounds: resumed, it yields the next two
  samples of the pool at once.
\<close>

theorem batch_structure_witness:
  "gen_next 3 (counting_world 3) 2 after_three_rounds 6 =
     Some (Inr ((([1, 0], [0, 0], [- 7, 12]), ([8, 17], [8, 17])),
                after_three_rounds\<lparr>samples := drop 2 (samples after_three_rounds)\<rparr>, 6))
   \<and> (\<exists>states actions advantages returns.
           (([1, 0], [0, 0], [- 7, 12]), ([8, 17], [8, 17])) = ((states, actions, advantages), (returns, returns))
         \<and> length states = 2 \<and> length actions = 2
         \<and> length advantages = 2 \<and> length returns = 2
         \<and> (\<forall>i < 2. (states ! i, actions ! i, returns ! i, advantages ! i)
                = samples (after_three_rounds\<lparr>samples := drop 2 (samples after_three_rounds)\<rparr>) ! i))"
proof -
  have h: "gen_next 3 (counting_world 3) 2 after_three_rounds 6 =
     Some (Inr ((([1, 0], [0, 0], [- 7, 12]), ([8, 17], [8, 17])),
                after_three_rounds\<lparr>samples := drop 2 (samples after_three_rounds)\<rparr>, 6))"
    by (simp add: gen_next_def after_three_rounds_def emit_def make_batch_def Let_def)
  from batch_structure [OF h] h show ?thesis by blast
qed

subsection \<open>C7: the length of the memory\<close>

text \<open>
  C7, as stated, fails for \<open>reward_steps = 0\<close>. The first pass fills the memory to
  length \<open>1 = reward_steps + 1\<close> and flushes it, which keeps the one transition; the
  second pass appends to it, the test \<^verbatim>\<open>len(self.memory) == self.reward_steps + 1\<close>
  of line 65 compares \<open>2\<close> with \<open>1\<close>, and the memory stays at length \<open>2\<close>.
\<close>

theorem memory_bounded_counterexample:
  "plays (counting_world 0) [1, 1] (Player_init (counting_world 0) 0 0 2 100 0) 0 =
     Inr (\<lparr>env = 2, reward_steps = 0, gamma = 2, state = 2,
           memory = [(0, 0, 1, 5), (1, 1, 2, 15)], episode_reward = 3,
           step_index = 2, max_steps = 100, player_index = 0\<rparr>, 2)
   \<and> \<not> int (length [(0::nat, 0::nat, 1::int, 5::int), (1, 1, 2, 15)]) \<le> 0 + 1"
  by (simp add: counting_world_def Player_init_def play_def play_step_def flush_call_def memory_to_samples_def Let_def)

text \<open>
  C7, amended: for a player created with \<open>reward_steps \<ge> 1\<close>, every sequence of
  \<^verbatim>\<open>play\<close> calls returns, and afterwards the memory has at most \<open>reward_steps\<close>
  entries, so that it has at most \<open>reward_steps + 1\<close> after the append of the next pass
  (calls \<^verbatim>\<open>play(1)\<close> reach every pass). After any call of \<^verbatim>\<open>_memory_to_samples\<close>
  that returns, the memory is empty when the flush was terminal, and otherwise it is the
  one-element list of the last transition of the memory flushed. After a pass, the memory
  is empty when the pass made a terminal flush, it is the one-element list of the
  transition recorded in that pass when the pass made a non-terminal flush, and it is the
  old memory with that transition appended when the pass made no flush.
\<close>

theorem memory_bounded:
  fixes c :: "('e, 'g, 'obs, 'act, 'p, 'r::{zero,plus,times,minus}) collab"
  assumes "1 \<le> rs"
  shows "(\<exists>p g'. plays c ns (Player_init c e rs gm ms idx) g = Inr (p, g')
            \<and> reward_steps p = rs
            \<and> int (length (memory p)) \<le> rs + 1
            \<and> (\<forall>t. int (length (memory p @ [t])) \<le> rs + 1))
       \<and> (\<forall>q h r. play_step c q h = Inr r \<and> flushes r \<noteq> [] \<longrightarrow>
             length (memory (player r)) = (if flushes r = [True] then 0 else 1))
       \<and> (\<forall>(q::('e, 'obs, 'act, 'r) Player) is_done smp q'. memory_to_samples q is_done = Inr (smp, q') \<longrightarrow>
             length (memory q') = (if is_done then 0 else 1)
           \<and> memory q' = (if is_done then [] else [last (memory q)]))
       \<and> (\<forall>q h r probs val action h' new_state reward dn e'.
             predict_on_batch c (state q) = (probs, val)
           \<and> random_choice c h probs = (action, h')
           \<and> env_step c (env q) action = ((new_state, reward, dn), e')
           \<and> play_step c q h = Inr r \<longrightarrow>
             flushes r =
               (if dn \<or> step_index q + 1 > max_steps q then [dn]
                else if int (length (memory q @ [(state q, action, reward, val)])) = reward_steps q + 1
                then [False] else [])
           \<and> memory (player r) =
               (if dn \<or> step_index q + 1 > max_steps q
                then (if dn then [] else [(state q, action, reward, val)])
                else if int (length (memory q @ [(state q, action, reward, val)])) = reward_steps q + 1
                then [(state q, action, reward, val)]
                else memory q @ [(state q, action, reward, val)]))"
proof (intro conjI)
  let ?p0 = "Player_init c e rs gm ms idx"
  have "1 \<le> reward_steps ?p0" "int (length (memory ?p0)) \<le> reward_steps ?p0"
    using assms by (simp_all add: Player_init_fields)
  from plays_bound [OF this, of c ns g]
  show "\<exists>p g'. plays c ns ?p0 g = Inr (p, g') \<and> reward_steps p = rs
            \<and> int (length (memory p)) \<le> rs + 1
            \<and> (\<forall>t. int (length (memory p @ [t])) \<le> rs + 1)"
    by (auto simp: Player_init_fields)
next
  show "\<forall>q h r. play_step c q h = Inr r \<and> flushes r \<noteq> [] \<longrightarrow>
             length (memory (player r)) = (if flushes r = [True] then 0 else 1)"
    by (intro allI impI, elim conjE, rule play_step_after_flush)
next
  show "\<forall>(q::('e, 'obs, 'act, 'r) Player) is_done smp q'. memory_to_samples q is_done = Inr (smp, q') \<longrightarrow>
             length (memory q') = (if is_done then 0 else 1)
           \<and> memory q' = (if is_done then [] else [last (memory q)])"
  proof (intro allI impI)
    fix q :: "('e, 'obs, 'act, 'r) Player" and is_done smp q'
    assume a: "memory_to_samples q is_done = Inr (smp, q')"
    have ok: "is_done \<or> memory q \<noteq> []"
      using a memory_to_samples_empty [of q] by (cases is_done) auto
    from a memory_to_samples_Inr [OF ok]
    show "length (memory q') = (if is_done then 0 else 1)
           \<and> memory q' = (if is_done then [] else [last (memory q)])"
      by auto
  qed
next
  show "\<forall>q h r probs val action h' new_state reward dn e'.
             predict_on_batch c (state q) = (probs, val)
           \<and> random_choice c h probs = (action, h')
           \<and> env_step c (env q) action = ((new_state, reward, dn), e')
           \<and> play_step c q h = Inr r \<longrightarrow>
             flushes r =
               (if dn \<or> step_index q + 1 > max_steps q then [dn]
                else if int (length (memory q @ [(state q, action, reward, val)])) = reward_steps q + 1
                then [False] else [])
           \<and> memory (player r) =
               (if dn \<or> step_index q + 1 > max_steps q
                then (if dn then [] else [(state q, action, reward, val)])
                else if int (length (memory q @ [(state q, action, reward, val)])) = reward_steps q + 1
                then [(state q, action, reward, val)]
                else memory q @ [(state q, action, reward, val)])"
  proof (intro allI impI, elim conjE)
    fix q h r probs val action h' new_state reward dn e'
    assume 1: "predict_on_batch c (state q) = (probs, val)"
      and 2: "random_choice c h probs = (action, h')"
      and 3: "env_step c (env q) action = ((new_state, reward, dn), e')"
      and 4: "play_step c q h = Inr r"
    from play_step_result [OF 1 2 3] 4
    show "flushes r =
               (if dn \<or> step_index q + 1 > max_steps q then [dn]
                else if int (length (memory q @ [(state q, action, reward, val)])) = reward_steps q + 1
                then [False] else [])
           \<and> memory (player r) =
               (if dn \<or> step_index q + 1 > max_steps q
                then (if dn then [] else [(state q, action, reward, val)])
                else if int (length (memory q @ [(state q, action, reward, val)])) = reward_steps q + 1
                then [(state q, action, reward, val)]
                else memory q @ [(state q, action, reward, val)])"
      by (auto split: if_splits)
  qed
qed

text \<open>
  C7, amended, at \<open>reward_steps = 2\<close> in the world that is never done: the third pass
  of an episode fills the memory and flushes it.
\<close>

theorem memory_bounded_witness:
  "(1::int) \<le> 2
   \<and> (\<exists>p g'. plays (counting_world 0) [2, 3, 1] (Player_init (counting_world 0) 0 2 2 100 0) 0 = Inr (p, g')
          \<and> reward_steps p = 2
          \<and> int (length (memory p)) \<le> 2 + 1
          \<and> int (length (memory p @ [(7, 1, 0, 0)])) \<le> 2 + 1)
   \<and> (\<exists>r. play_step (counting_world 0) (two_step_player 2 100) 2 = Inr r \<and> flushes r \<noteq> []
          \<and> length (memory (player r)) = (if flushes r = [True] then 0 else 1)
          \<and> flushes r = [False]
          \<and> memory (player r) = [(2, 0, 3, 25)])
   \<and> (\<exists>smp q'. memory_to_samples (two_step_player 2 100) False = Inr (smp, q')
          \<and> length (memory q') = 1
          \<and> memory q' = [(1, 1, 2, 15)])"
proof -
  have h: "(1::int) \<le> 2" by simp
  note m = memory_bounded [OF h, of "counting_world 0" "[2, 3, 1]" 0 2 100 0 0]
  from m [THEN conjunct1] obtain p g' where
    1: "plays (counting_world 0) [2, 3, 1] (Player_init (counting_world 0) 0 2 2 100 0) 0 = Inr (p, g')"
       "reward_steps p = 2" "int (length (memory p)) \<le> 2 + 1"
       "\<forall>t. int (length (memory p @ [t])) \<le> 2 + 1"
    by blast
  from m [THEN conjunct2, THEN conjunct1] have 2: "\<forall>q h r. play_step (counting_world 0) q h = Inr r \<and> flushes r \<noteq> [] \<longrightarrow>
             length (memory (player r)) = (if flushes r = [True] then 0 else 1)"
    .
  from m [THEN conjunct2, THEN conjunct2, THEN conjunct1] have 3: "\<forall>(q::(nat, nat, nat, int) Player) is_done smp q'.
             memory_to_samples q is_done = Inr (smp, q') \<longrightarrow>
             length (memory q') = (if is_done then 0 else 1)
           \<and> memory q' = (if is_done then [] else [last (memory q)])"
    .
  from m [THEN conjunct2, THEN conjunct2, THEN conjunct2] have 4: "\<forall>q h r probs val action h' new_state reward dn e'.
             predict_on_batch (counting_world 0) (state q) = (probs, val)
           \<and> random_choice (counting_world 0) h probs = (action, h')
           \<and> env_step (counting_world 0) (env q) action = ((new_state, reward, dn), e')
           \<and> play_step (counting_world 0) q h = Inr r \<longrightarrow>
             flushes r =
               (if dn \<or> step_index q + 1 > max_steps q then [dn]
                else if int (length (memory q @ [(state q, action, reward, val)])) = reward_steps q + 1
                then [False] else [])
           \<and> memory (player r) =
               (if dn \<or> step_index q + 1 > max_steps q
                then (if dn then [] else [(state q, action, reward, val)])
                else if int (length (memory q @ [(state q, action, reward, val)])) = reward_steps q + 1
                then [(state q, action, reward, val)]
                else memory q @ [(state q, action, reward, val)])"
    .
  obtain r where r: "play_step (counting_world 0) (two_step_player 2 100) 2 = Inr r"
    using play_step_total [of "counting_world 0" "two_step_player 2 100" 2] by blast
  have e: "predict_on_batch (counting_world 0) (state (two_step_player 2 100)) = ((), 25)
           \<and> random_choice (counting_world 0) 2 () = (0, 3)
           \<and> env_step (counting_world 0) (env (two_step_player 2 100)) 0 = ((3, 3, False), 3)"
    by (simp add: world_simps)
  from 4 [rule_format, of "two_step_player 2 100" "()" 25 2 0 3 3 3 False 3 r] e r
  have f: "flushes r = [False]" "memory (player r) = [(2, 0, 3, 25)]"
    by (simp_all add: two_step_player_def)
  with 2 r have l: "length (memory (player r)) = (if flushes r = [True] then 0 else 1)" by auto
  obtain smp q' where s: "memory_to_samples (two_step_player 2 100) False = Inr (smp, q')"
    by (simp add: memory_to_samples_def two_step_player_def Let_def)
  from 3 [rule_format, OF s] have "length (memory q') = 1" "memory q' = [(1, 1, 2, 15)]"
    by (simp_all add: two_step_player_def)
  with h 1 r f l s show ?thesis by auto
qed

subsection \<open>C8: the end of an episode\<close>

text \<open>
  C8. When a pass ends the episode (\<open>done\<close>, or the step budget exceeded), the player
  afterwards has \<open>step_index = 0\<close> and \<open>episode_reward = 0\<close>, its state is the
  observation \<^verbatim>\<open>env.reset()\<close> returned, and the loop returns with the samples of this
  pass however many passes were left.
\<close>

theorem episode_end_resets_and_stops:
  assumes "predict_on_batch c (state p) = (probs, val)"
      and "random_choice c g probs = (action, g')"
      and "env_step c (env p) action = ((new_state, reward, done), e')"
      and "done \<or> step_index p + 1 > max_steps p"
      and "env_reset c e' = (s0, e'')"
  shows "\<exists>r. play_step c p g = Inr r
           \<and> step_index (player r) = 0
           \<and> episode_reward (player r) = 0
           \<and> state (player r) = s0
           \<and> env (player r) = e''
           \<and> (\<forall>n result. play_loop c (Suc n) p g result = Inr (result @ produced r, player r, rng r))"
proof -
  from play_step_result [OF assms(1-3)] assms(4)
  obtain r where r: "play_step c p g = Inr r" "stop r"
      "step_index (player r) = 0" "episode_reward (player r) = 0"
      "state (player r) = fst (env_reset c e')" "env (player r) = snd (env_reset c e')"
    by auto
  have "play_loop c (Suc n) p g result = Inr (result @ produced r, player r, rng r)" for n result
    using r(1,2) by simp
  with r assms(5) show ?thesis by auto
qed

text \<open>
  C8 at the third step of a three-step episode, with four more passes asked for.
\<close>

theorem episode_end_resets_and_stops_witness:
  "predict_on_batch (counting_world 3) (state (two_step_player 5 100)) = ((), 25)
   \<and> random_choice (counting_world 3) 2 () = (0, 3)
   \<and> env_step (counting_world 3) (env (two_step_player 5 100)) 0 = ((3, 3, True), 3)
   \<and> (True \<or> step_index (two_step_player 5 100) + 1 > max_steps (two_step_player 5 100))
   \<and> env_reset (counting_world 3) 3 = (0, 0)
   \<and> (\<exists>r. play_step (counting_world 3) (two_step_player 5 100) 2 = Inr r
          \<and> step_index (player r) = 0
          \<and> episode_reward (player r) = 0
          \<and> state (player r) = 0
          \<and> env (player r) = 0
          \<and> play_loop (counting_world 3) (Suc 4) (two_step_player 5 100) 2 []
               = Inr ([] @ produced r, player r, rng r))"
proof -
  have h: "predict_on_batch (counting_world 3) (state (two_step_player 5 100)) = ((), 25)"
    "random_choice (counting_world 3) 2 () = (0, 3)"
    "env_step (counting_world 3) (env (two_step_player 5 100)) 0 = ((3, 3, True), 3)"
    "True \<or> step_index (two_step_player 5 100) + 1 > max_steps (two_step_player 5 100)"
    "env_reset (counting_world 3) 3 = (0, 0)"
    by (simp_all add: world_simps)
  from episode_end_resets_and_stops [OF h] h show ?thesis by blast
qed

subsection \<open>C9: one flush per pass\<close>

text \<open>
  C9. A pass calls \<^verbatim>\<open>_memory_to_samples\<close> at most once: with \<^verbatim>\<open>is_done=done\<close> when
  the episode ends or the step budget is exceeded, otherwise with \<^verbatim>\<open>is_done=False\<close>
  when the memory has reached \<open>reward_steps + 1\<close> entries, otherwise not at all. This is
  said twice, by the call log and by what the pass returns. In the first case the samples
  and the player of the pass are exactly what that one call returns on the player with
  the transition appended and the episode reset; in the second they are what that one
  call returns on the player with the transition appended, the state then moved on; in
  the third there is no sample and the memory is the old one with the transition
  appended. The loop is left early exactly in the first case; after a memory-full flush
  it goes on with the passes that are left.
\<close>

theorem one_flush_per_step:
  assumes "predict_on_batch c (state p) = (probs, val)"
      and "random_choice c g probs = (action, g')"
      and "env_step c (env p) action = ((new_state, reward, done), e')"
  shows "\<exists>r. play_step c p g = Inr r
           \<and> length (flushes r) \<le> 1
           \<and> flushes r =
               (if done \<or> step_index p + 1 > max_steps p then [done]
                else if int (length (memory p @ [(state p, action, reward, val)])) = reward_steps p + 1
                then [False] else [])
           \<and> (stop r \<longleftrightarrow> done \<or> step_index p + 1 > max_steps p)
           \<and> (\<forall>n result. play_loop c (Suc n) p g result =
                 (if done \<or> step_index p + 1 > max_steps p
                  then Inr (result @ produced r, player r, rng r)
                  else play_loop c n (player r) (rng r) (result @ produced r)))
           \<and> rng r = g'
           \<and> (if done \<or> step_index p + 1 > max_steps p then
                 memory_to_samples
                   \<lparr>env = snd (env_reset c e'), reward_steps = reward_steps p, gamma = gamma p,
                    state = fst (env_reset c e'),
                    memory = memory p @ [(state p, action, reward, val)],
                    episode_reward = 0, step_index = 0, max_steps = max_steps p,
                    player_index = player_index p\<rparr> done
                 = Inr (produced r, player r)
               else if int (length (memory p @ [(state p, action, reward, val)])) = reward_steps p + 1 then
                 (\<exists>q. memory_to_samples
                   \<lparr>env = e', reward_steps = reward_steps p, gamma = gamma p, state = state p,
                    memory = memory p @ [(state p, action, reward, val)],
                    episode_reward = episode_reward p + reward, step_index = step_index p + 1,
                    max_steps = max_steps p, player_index = player_index p\<rparr> False
                   = Inr (produced r, q)
                  \<and> player r = q\<lparr>state := new_state\<rparr>)
               else
                 produced r = []
                 \<and> player r =
                     \<lparr>env = e', reward_steps = reward_steps p, gamma = gamma p, state = new_state,
                      memory = memory p @ [(state p, action, reward, val)],
                      episode_reward = episode_reward p + reward, step_index = step_index p + 1,
                      max_steps = max_steps p, player_index = player_index p\<rparr>)"
proof -
  let ?t = "(state p, action, reward, val)"
  let ?end = "done \<or> step_index p + 1 > max_steps p"
  let ?full = "int (length (memory p @ [?t])) = reward_steps p + 1"
  let ?P_end = "\<lparr>env = snd (env_reset c e'), reward_steps = reward_steps p, gamma = gamma p,
                    state = fst (env_reset c e'),
                    memory = memory p @ [?t],
                    episode_reward = 0, step_index = 0, max_steps = max_steps p,
                    player_index = player_index p\<rparr>"
  let ?P_app = "\<lparr>env = e', reward_steps = reward_steps p, gamma = gamma p, state = state p,
                    memory = memory p @ [?t],
                    episode_reward = episode_reward p + reward, step_index = step_index p + 1,
                    max_steps = max_steps p, player_index = player_index p\<rparr>"
  note calls = play_step_calls [OF assms]
  have cont: "play_loop c (Suc n) p g result =
          (if ?end then Inr (result @ produced r, player r, rng r)
           else play_loop c n (player r) (rng r) (result @ produced r))"
    if "play_step c p g = Inr r" "stop r \<longleftrightarrow> ?end" for r n result
    using that by simp
  consider (ended) ?end | (full) "\<not> ?end" ?full | (none) "\<not> ?end" "\<not> ?full" by blast
  then show ?thesis
  proof cases
    case ended
    have "done \<or> memory ?P_end \<noteq> []" by simp
    from flush_call_total [OF this, of "[]"] obtain smp q where
      f: "flush_call [] ?P_end done = Inr (smp, q, [done])"
      and m: "memory_to_samples ?P_end done = Inr (smp, q)" by auto
    let ?r = "\<lparr>stop = True, flushes = [done], produced = smp, player = q, rng = g'\<rparr>"
    have r: "play_step c p g = Inr ?r" using calls ended f by simp
    have "stop ?r \<longleftrightarrow> ?end" using ended by simp
    note cont [OF r this]
    with r m ended show ?thesis by (intro exI [of _ ?r]) simp
  next
    case full
    have "False \<or> memory ?P_app \<noteq> []" by simp
    from flush_call_total [OF this, of "[]"] obtain smp q where
      f: "flush_call [] ?P_app False = Inr (smp, q, [False])"
      and m: "memory_to_samples ?P_app False = Inr (smp, q)" by auto
    let ?r = "\<lparr>stop = False, flushes = [False], produced = smp,
               player = q\<lparr>state := new_state\<rparr>, rng = g'\<rparr>"
    have r: "play_step c p g = Inr ?r" using calls full f by simp
    have "stop ?r \<longleftrightarrow> ?end" using full by simp
    note cont [OF r this]
    with r m full show ?thesis by (intro exI [of _ ?r]) simp
  next
    case none
    let ?r = "\<lparr>stop = False, flushes = [], produced = [],
               player = ?P_app\<lparr>state := new_state\<rparr>, rng = g'\<rparr>"
    have r: "play_step c p g = Inr ?r" using calls none by simp
    have "stop ?r \<longleftrightarrow> ?end" using none by simp
    note cont [OF r this]
    with r none show ?thesis by (intro exI [of _ ?r]) simp
  qed
qed

text \<open>
  C9 at a pass that fills the memory (\<open>reward_steps = 2\<close>) in an episode that goes on.
\<close>

theorem one_flush_per_step_witness:
  "predict_on_batch (counting_world 0) (state (two_step_player 2 100)) = ((), 25)
   \<and> random_choice (counting_world 0) 2 () = (0, 3)
   \<and> env_step (counting_world 0) (env (two_step_player 2 100)) 0 = ((3, 3, False), 3)
   \<and> (\<exists>r. play_step (counting_world 0) (two_step_player 2 100) 2 = Inr r
          \<and> length (flushes r) \<le> 1
          \<and> flushes r = [False]
          \<and> \<not> stop r
          \<and> play_loop (counting_world 0) (Suc 4) (two_step_player 2 100) 2 []
               = play_loop (counting_world 0) 4 (player r) (rng r) ([] @ produced r)
          \<and> rng r = 3
          \<and> produced r = [(1, 1, 52, 37), (0, 0, 105, 100)]
          \<and> memory (player r) = [(2, 0, 3, 25)]
          \<and> state (player r) = 3)"
proof -
  have h: "predict_on_batch (counting_world 0) (state (two_step_player 2 100)) = ((), 25)"
    "random_choice (counting_world 0) 2 () = (0, 3)"
    "env_step (counting_world 0) (env (two_step_player 2 100)) 0 = ((3, 3, False), 3)"
    by (simp_all add: world_simps)
  from one_flush_per_step [OF h] obtain r where
    r: "play_step (counting_world 0) (two_step_player 2 100) 2 = Inr r"
       "length (flushes r) \<le> 1"
    and 3: "flushes r =
               (if False \<or> step_index (two_step_player 2 100) + 1 > max_steps (two_step_player 2 100) then [False]
                else if int (length (memory (two_step_player 2 100) @ [(state (two_step_player 2 100), 0, 3, 25)]))
                        = reward_steps (two_step_player 2 100) + 1
                then [False] else [])"
    and 4: "stop r \<longleftrightarrow> False \<or> step_index (two_step_player 2 100) + 1 > max_steps (two_step_player 2 100)"
    and 5: "\<forall>n result. play_loop (counting_world 0) (Suc n) (two_step_player 2 100) 2 result =
                 (if False \<or> step_index (two_step_player 2 100) + 1 > max_steps (two_step_player 2 100)
                  then Inr (result @ produced r, player r, rng r)
                  else play_loop (counting_world 0) n (player r) (rng r) (result @ produced r))"
    and 6: "rng r = 3"
    and 7: "if False \<or> step_index (two_step_player 2 100) + 1 > max_steps (two_step_player 2 100) then
                 memory_to_samples
                   \<lparr>env = snd (env_reset (counting_world 0) 3), reward_steps = reward_steps (two_step_player 2 100),
                    gamma = gamma (two_step_player 2 100),
                    state = fst (env_reset (counting_world 0) 3),
                    memory = memory (two_step_player 2 100) @ [(state (two_step_player 2 100), 0, 3, 25)],
                    episode_reward = 0, step_index = 0, max_steps = max_steps (two_step_player 2 100),
                    player_index = player_index (two_step_player 2 100)\<rparr> False
                 = Inr (produced r, player r)
               else if int (length (memory (two_step_player 2 100) @ [(state (two_step_player 2 100), 0, 3, 25)]))
                        = reward_steps (two_step_player 2 100) + 1 then
                 (\<exists>q. memory_to_samples
                   \<lparr>env = 3, reward_steps = reward_steps (two_step_player 2 100),
                    gamma = gamma (two_step_player 2 100), state = state (two_step_player 2 100),
                    memory = memory (two_step_player 2 100) @ [(state (two_step_player 2 100), 0, 3, 25)],
                    episode_reward = episode_reward (two_step_player 2 100) + 3,
                    step_index = step_index (two_step_player 2 100) + 1,
                    max_steps = max_steps (two_step_player 2 100),
                    player_index = player_index (two_step_player 2 100)\<rparr> False
                   = Inr (produced r, q)
                  \<and> player r = q\<lparr>state := 3\<rparr>)
               else
                 produced r = []
                 \<and> player r =
                     \<lparr>env = 3, reward_steps = reward_steps (two_step_player 2 100),
                      gamma = gamma (two_step_player 2 100), state = 3,
                      memory = memory (two_step_player 2 100) @ [(state (two_step_player 2 100), 0, 3, 25)],
                      episode_reward = episode_reward (two_step_player 2 100) + 3,
                      step_index = step_index (two_step_player 2 100) + 1,
                      max_steps = max_steps (two_step_player 2 100),
                      player_index = player_index (two_step_player 2 100)\<rparr>"
    by blast
  from 3 have x3: "flushes r = [False]" by (simp add: two_step_player_def)
  from 4 have x4: "\<not> stop r" by (simp add: two_step_player_def)
  from 5 [rule_format, of 4 "[]"]
  have x5: "play_loop (counting_world 0) (Suc 4) (two_step_player 2 100) 2 []
               = play_loop (counting_world 0) 4 (player r) (rng r) ([] @ produced r)"
    by (simp add: two_step_player_def)
  from 7 have x7: "produced r = [(1, 1, 52, 37), (0, 0, 105, 100)]
                 \<and> memory (player r) = [(2, 0, 3, 25)] \<and> state (player r) = 3"
    by (auto simp: two_step_player_def memory_to_samples_def Let_def)
  from h r x3 x4 x5 6 x7 show ?thesis by blast
qed

subsection \<open>C10: the transition kept across a truncation\<close>

text \<open>
  C10. When a pass exceeds the step budget while the environment reports
  \<open>done = False\<close>, the flush is called with \<open>False\<close> and the transition of that pass is
  the memory afterwards, although the episode counters and the state are reset. Going on
  from there, a pass that flushes comes within \<open>max_steps + 1\<close> passes, and the last
  sample of that first flush is the sample of the kept transition: its state, its action,
  and as advantage the return minus its value estimate.
\<close>

theorem truncation_keeps_transition:
  assumes "predict_on_batch c (state p) = (probs, val)"
      and "random_choice c g probs = (action, g')"
      and "env_step c (env p) action = ((new_state, reward, False), e')"
      and "step_index p + 1 > max_steps p"
  shows "\<exists>r. play_step c p g = Inr r
           \<and> flushes r = [False]
           \<and> memory (player r) = [(state p, action, reward, val)]
           \<and> step_index (player r) = 0
           \<and> state (player r) = fst (env_reset c e')
           \<and> (\<exists>r'. until_flush (nat (max_steps p) + 1) c (player r) (rng r) = Some (Inr r')
                  \<and> produced r' \<noteq> []
                  \<and> (\<exists>R. last (produced r') = (state p, action, R, R - val)))"
proof -
  from play_step_result [OF assms(1-3)] assms(4)
  obtain r where r: "play_step c p g = Inr r" "flushes r = [False]"
      "memory (player r) = [(state p, action, reward, val)]"
      "step_index (player r) = 0" "state (player r) = fst (env_reset c e')"
      "max_steps (player r) = max_steps p"
    by auto
  have "max_steps (player r) - step_index (player r) < int (nat (max_steps p) + 1)"
    using r(4,6) by simp
  from until_flush_head [OF r(3) this, of c "rng r"] r show ?thesis by simp
qed

text \<open>
  C10 at the player two steps into its episode with \<open>max_steps = 2\<close>: the next
  flush is the truncation of the following episode, three passes later.
\<close>

theorem truncation_keeps_transition_witness:
  "predict_on_batch (counting_world 0) (state (two_step_player 5 2)) = ((), 25)
   \<and> random_choice (counting_world 0) 2 () = (0, 3)
   \<and> env_step (counting_world 0) (env (two_step_player 5 2)) 0 = ((3, 3, False), 3)
   \<and> step_index (two_step_player 5 2) + 1 > max_steps (two_step_player 5 2)
   \<and> (\<exists>r. play_step (counting_world 0) (two_step_player 5 2) 2 = Inr r
          \<and> flushes r = [False]
          \<and> memory (player r) = [(2, 0, 3, 25)]
          \<and> step_index (player r) = 0
          \<and> (\<exists>r'. until_flush 3 (counting_world 0) (player r) (rng r) = Some (Inr r')
                 \<and> produced r' \<noteq> []
                 \<and> (\<exists>R. last (produced r') = (2, 0, R, R - 25))))"
proof -
  have h: "predict_on_batch (counting_world 0) (state (two_step_player 5 2)) = ((), 25)"
    "random_choice (counting_world 0) 2 () = (0, 3)"
    "env_step (counting_world 0) (env (two_step_player 5 2)) 0 = ((3, 3, False), 3)"
    "step_index (two_step_player 5 2) + 1 > max_steps (two_step_player 5 2)"
    by (simp_all add: world_simps)
  have n: "nat (max_steps (two_step_player 5 2)) + 1 = 3" "state (two_step_player 5 2) = 2"
    by (simp_all add: two_step_player_def)
  from truncation_keeps_transition [OF h] h show ?thesis unfolding n by blast
qed

end
